theory Spec2Isabelle
  imports Main
begin

section \<open>Strings: the JavaScript string operations used by the request wrapper\<close>

text \<open>
  Strings are byte strings, and \<open>toLowerCase\<close> folds the ASCII letters only. The two
  patterns the source looks for (\<open>"ratelimit"\<close> and \<open>/retry in (\d+) seconds?/i\<close>) consist
  of ASCII characters, and for these two patterns no character outside ASCII takes part
  in a match in JavaScript either, so the ASCII folding finds the same matches.
\<close>

definition lowerChar :: "char \<Rightarrow> char" where
  "lowerChar c =
     (case map_of (zip ''ABCDEFGHIJKLMNOPQRSTUVWXYZ'' ''abcdefghijklmnopqrstuvwxyz'') c of
        Some l \<Rightarrow> l
      | None \<Rightarrow> c)"

definition toLowerCase :: "string \<Rightarrow> string" where
  "toLowerCase s = map lowerChar s"

definition startsWith :: "string \<Rightarrow> string \<Rightarrow> bool" where
  "startsWith s p = (take (length p) s = p)"

text \<open>\<open>s.includes(sub)\<close>: \<open>sub\<close> occurs somewhere in \<open>s\<close>.\<close>

fun str_includes :: "string \<Rightarrow> string \<Rightarrow> bool" where
  "str_includes [] sub = (sub = [])"
| "str_includes (c # cs) sub = (startsWith (c # cs) sub \<or> str_includes cs sub)"

definition isDigit :: "char \<Rightarrow> bool" where
  "isDigit c = (c \<in> set ''0123456789'')"

definition digitVal :: "char \<Rightarrow> nat" where
  "digitVal c =
     (case map_of (zip ''0123456789'' [0, 1, 2, 3, 4, 5, 6, 7, 8, 9]) c of
        Some d \<Rightarrow> d
      | None \<Rightarrow> 0)"

text \<open>The integer that a string of decimal digits denotes.\<close>

definition decimalValue :: "string \<Rightarrow> nat" where
  "decimalValue ds = foldl (\<lambda>n c. 10 * n + digitVal c) 0 ds"

text \<open>
  JavaScript numbers are doubles. A double holds every integer up to \<open>2^53\<close> exactly; a
  larger integer is rounded to some double that is at least \<open>2^53\<close> (or to \<open>Infinity\<close>).
  The only number the program computes with is the wait, and nothing it does with a number
  that large depends on its value, so the model keeps the exact integer up to \<open>2^53\<close> and
  one value \<open>Beyond\<close> for everything above. \<open>toNumber\<close> is the rounding,
  \<open>parseInt\<close> is \<open>parseInt(ds, 10)\<close> on a string of decimal digits, \<open>timesNumber\<close>
  the product with a positive integer constant.
\<close>

datatype jsnum = Exactly nat | Beyond

definition toNumber :: "nat \<Rightarrow> jsnum" where
  "toNumber n = (if n \<le> 9007199254740992 then Exactly n else Beyond)"

definition parseInt :: "string \<Rightarrow> jsnum" where
  "parseInt ds = toNumber (decimalValue ds)"

definition timesNumber :: "jsnum \<Rightarrow> nat \<Rightarrow> jsnum" where
  "timesNumber a k = (case a of Exactly n \<Rightarrow> toNumber (n * k) | Beyond \<Rightarrow> Beyond)"

text \<open>
  The regular expression \<open>/retry in (\d+) seconds?/i\<close> tried at the start of \<open>s\<close>: the
  literal \<open>retry in \<close>, a non-empty maximal run of digits (the group), then \<open> second\<close>;
  the trailing \<open>s?\<close> never decides a match. \<open>retry_match\<close> is \<open>String.prototype.match\<close>
  with that expression: the leftmost position that matches, and its group.
\<close>

definition retry_match_here :: "string \<Rightarrow> string option" where
  "retry_match_here s =
     (if startsWith (toLowerCase s) ''retry in '' then
        (let rest = drop 9 s;
             ds = takeWhile isDigit rest;
             after = dropWhile isDigit rest
         in if ds \<noteq> [] \<and> startsWith (toLowerCase after) '' second'' then Some ds else None)
      else None)"

fun retry_match :: "string \<Rightarrow> string option" where
  "retry_match [] = None"
| "retry_match (c # cs) =
     (case retry_match_here (c # cs) of
        Some ds \<Rightarrow> Some ds
      | None \<Rightarrow> retry_match cs)"

text \<open>
  The time span notation that \<open>jwt.sign\<close> accepts for \<open>expiresIn\<close> (digits and a unit
  letter), in milliseconds.
\<close>

definition timespan_ms :: "string \<Rightarrow> nat option" where
  "timespan_ms s =
     (let ds = takeWhile isDigit s; u = dropWhile isDigit s
      in if ds = [] then None
         else if u = ''s'' then Some (decimalValue ds * 1000)
         else if u = ''m'' then Some (decimalValue ds * 60 * 1000)
         else if u = ''h'' then Some (decimalValue ds * 60 * 60 * 1000)
         else if u = ''d'' then Some (decimalValue ds * 24 * 60 * 60 * 1000)
         else None)"

section \<open>Data model\<close>

text \<open>The body of a failed response, as far as the wrapper reads it.\<close>

record err_data =
  error_description :: "string option"
  error_type :: "string option"

text \<open>
  What a call can throw: a rejected HTTP call (with \<open>err.response.data\<close>, absent when
  there was no response), the listing check of \<open>fetchReportPage\<close>, a malformed ledger
  file, or a file system error.
\<close>

datatype failure =
    AxiosError "err_data option"
  | ReportsNotArray
  | LogMalformed
  | FsError

text \<open>A record of the listing; the model identifies it by the string form of its id,
  which is what both \<open>report.id.toString()\<close> and the property key \<open>downloadLog[reportId]\<close>
  use.\<close>

record report =
  report_id :: string

text \<open>
  The payloads of the two authenticated endpoints: a listing (\<open>data\<close> is an array; with
  \<open>page_number\<close>, \<open>total_pages\<close> and the optional \<open>total_count\<close>), a detail (\<open>data\<close> is
  an object; with its optional \<open>url\<close>), or any other payload. The two page fields are
  taken to be integers; what \<open>>=\<close> does in JavaScript on missing or non-numeric fields
  is not modelled.
\<close>

datatype resp_data =
    Listing "report list" int int "int option"
  | Detail "string option"
  | OtherData

datatype endpoint =
    ReportsList string nat int
  | ReportItem string

datatype request =
    TokenExchange string
  | Api endpoint string
  | FileGet string

record ledger_entry =
  filename :: string
  hash :: string
  downloaded_at :: int

type_synonym ledger = "string \<rightharpoonup> ledger_entry"

datatype log_state = Absent | Malformed | Stored ledger

datatype event =
    Sent request
  | Slept nat
  | Opened string
  | Renamed string string
  | LogWritten

text \<open>
  The download directory \<open>DOWNLOAD_DIR\<close>, when it exists: the artifact files by path, and
  the ledger file.
\<close>

record directory =
  entries :: "string \<rightharpoonup> string"
  ledger_file :: log_state

text \<open>
  The process and its surroundings. \<open>cachedToken\<close> and \<open>tokenExpiresAt\<close> are the two
  module variables (\<open>None\<close> is \<open>null\<close> or \<open>undefined\<close>); \<open>now\<close> is \<open>Date.now()\<close>. The
  remote side is an oracle indexed by the number of HTTP calls made so far: it gives the
  time the call takes and either the body of the rejection or the payload. \<open>timer_lag\<close>
  is how late a timer fires after its delay. \<open>dir\<close> is the download directory (\<open>None\<close>
  when it does not exist), \<open>trace\<close> what the process did, oldest first.
\<close>

record world =
  cachedToken :: "string option"
  tokenExpiresAt :: "int option"
  now :: int
  calls :: nat
  token_srv :: "nat \<Rightarrow> string \<Rightarrow> nat \<times> (err_data option + string option)"
  api_srv :: "nat \<Rightarrow> endpoint \<Rightarrow> string \<Rightarrow> nat \<times> (err_data option + resp_data)"
  file_srv :: "nat \<Rightarrow> string \<Rightarrow> nat \<times> (err_data option + string)"
  timer_lag :: "nat \<Rightarrow> nat"
  dir :: "directory option"
  trace :: "event list"

text \<open>
  What the file system shows: the files and the ledger file of the download directory;
  nothing when the directory does not exist.
\<close>

definition dirExists :: "world \<Rightarrow> bool" where
  "dirExists w = (dir w \<noteq> None)"

definition files :: "world \<Rightarrow> string \<rightharpoonup> string" where
  "files w = (case dir w of None \<Rightarrow> Map.empty | Some d \<Rightarrow> entries d)"

definition log_file :: "world \<Rightarrow> log_state" where
  "log_file w = (case dir w of None \<Rightarrow> Absent | Some d \<Rightarrow> ledger_file d)"

text \<open>The settings read from the environment, and the digest of the \<open>crypto\<close> module.\<close>

record env =
  DOWNLOAD_DIR :: string
  sha256_hex :: "string \<Rightarrow> string"

section \<open>Token handling\<close>

definition ASSERTION_EXPIRES_IN :: string where
  "ASSERTION_EXPIRES_IN = ''5m''"

definition TOKEN_REFRESH_MS :: int where
  "TOKEN_REFRESH_MS = 4 * 60 * 1000"

text \<open>One HTTP call: the oracle answers, the call counter and the clock advance.\<close>

definition performed :: "request \<Rightarrow> nat \<Rightarrow> world \<Rightarrow> world" where
  "performed rq ms w =
     w\<lparr>calls := Suc (calls w), now := now w + int ms, trace := trace w @ [Sent rq]\<rparr>"

text \<open>
  \<open>getAccessToken\<close>: the signed assertion is exchanged for a token. The result is the
  \<open>access_token\<close> field of the answer, or the body of the rejection that is thrown.
\<close>

definition getAccessToken :: "world \<Rightarrow> (err_data option + string option) \<times> world" where
  "getAccessToken w =
     (case token_srv w (calls w) ASSERTION_EXPIRES_IN of
        (ms, out) \<Rightarrow> (out, performed (TokenExchange ASSERTION_EXPIRES_IN) ms w))"

text \<open>\<open>!cachedToken\<close> and \<open>!tokenExpiresAt\<close>: JavaScript falsiness.\<close>

definition falsyString :: "string option \<Rightarrow> bool" where
  "falsyString t = (t = None \<or> t = Some [])"

definition falsyNumber :: "int option \<Rightarrow> bool" where
  "falsyNumber t = (t = None \<or> t = Some 0)"

text \<open>\<open>Date.now() >= tokenExpiresAt\<close>: the local clock judges the cached token expired.\<close>

definition locallyExpired :: "world \<Rightarrow> bool" where
  "locallyExpired w = (case tokenExpiresAt w of Some e \<Rightarrow> now w \<ge> e | None \<Rightarrow> True)"

definition tokenStale :: "world \<Rightarrow> bool" where
  "tokenStale w =
     (falsyString (cachedToken w) \<or> falsyNumber (tokenExpiresAt w) \<or> locallyExpired w)"

definition getValidToken :: "world \<Rightarrow> (err_data option + string option) \<times> world" where
  "getValidToken w =
     (if tokenStale w then
        (case getAccessToken w of
           (Inl d, w1) \<Rightarrow> (Inl d, w1)
         | (Inr tok, w1) \<Rightarrow>
             (Inr tok, w1\<lparr>cachedToken := tok, tokenExpiresAt := Some (now w1 + TOKEN_REFRESH_MS)\<rparr>))
      else (Inr (cachedToken w), w))"

section \<open>The request wrapper\<close>

definition bearer :: "string option \<Rightarrow> string" where
  "bearer tok = ''Bearer '' @ (case tok of Some t \<Rightarrow> t | None \<Rightarrow> ''undefined'')"

text \<open>The body of the \<open>try\<close> block of \<open>authRequest\<close>: a valid token, then the call.\<close>

definition tryRequest :: "endpoint \<Rightarrow> world \<Rightarrow> (err_data option + resp_data) \<times> world" where
  "tryRequest ep w =
     (case getValidToken w of
        (Inl d, w1) \<Rightarrow> (Inl d, w1)
      | (Inr tok, w1) \<Rightarrow>
          (case api_srv w1 (calls w1) ep (bearer tok) of
             (ms, out) \<Rightarrow> (out, performed (Api ep (bearer tok)) ms w1)))"

definition orEmpty :: "string option \<Rightarrow> string" where
  "orEmpty s = (case s of Some d \<Rightarrow> d | None \<Rightarrow> [])"

definition isExpired :: "err_data option \<Rightarrow> bool" where
  "isExpired data =
     (case data of
        None \<Rightarrow> False
      | Some d \<Rightarrow> error_description d = Some ''Access token has expired.'')"

definition isRateLimit :: "err_data option \<Rightarrow> bool" where
  "isRateLimit data =
     (case data of
        None \<Rightarrow> False
      | Some d \<Rightarrow>
          error_type d = Some ''RateLimitError'' \<or>
          str_includes (toLowerCase (orEmpty (error_description d))) ''ratelimit'')"

definition waitSeconds :: "err_data option \<Rightarrow> jsnum" where
  "waitSeconds data =
     (case data of
        None \<Rightarrow> Exactly 10
      | Some d \<Rightarrow>
          (case retry_match (orEmpty (error_description d)) of
             Some ds \<Rightarrow> parseInt ds
           | None \<Rightarrow> Exactly 10))"

text \<open>
  \<open>setTimeout(res, delay)\<close>: the timer of the runtime takes a delay from 1 to
  \<open>2147483647\<close> milliseconds and sets any other delay to 1. The promise resolves when the
  timer fires, which is after the delay, possibly late.
\<close>

definition TIMEOUT_MAX :: nat where
  "TIMEOUT_MAX = 2147483647"

definition timerDelay :: "jsnum \<Rightarrow> nat" where
  "timerDelay delay =
     (case delay of
        Exactly ms \<Rightarrow> (if 1 \<le> ms \<and> ms \<le> TIMEOUT_MAX then ms else 1)
      | Beyond \<Rightarrow> 1)"

definition sleep :: "jsnum \<Rightarrow> world \<Rightarrow> world" where
  "sleep delay w =
     w\<lparr>now := now w + int (timerDelay delay) + int (timer_lag w (calls w)),
       trace := trace w @ [Slept (timerDelay delay)]\<rparr>"

text \<open>
  \<open>authRequest\<close>: the \<open>while (true)\<close> loop. A loop that never leaves is the value \<open>None\<close>.
\<close>

partial_function (option) authRequest ::
  "endpoint \<Rightarrow> world \<Rightarrow> ((failure + resp_data) \<times> world) option" where
  "authRequest ep w =
     (case tryRequest ep w of
        (Inr r, w1) \<Rightarrow> Some (Inr r, w1)
      | (Inl data, w1) \<Rightarrow>
          if isExpired data then authRequest ep (w1\<lparr>cachedToken := None\<rparr>)
          else if isRateLimit data
          then authRequest ep (sleep (timesNumber (waitSeconds data) 1000) w1)
          else Some (Inl (AxiosError data), w1))"

section \<open>The report API\<close>

record page =
  reports :: "report list"
  page_number :: int
  total_pages :: int
  total_count :: "int option"

definition fetchReportPage ::
  "string \<Rightarrow> int \<Rightarrow> world \<Rightarrow> ((failure + page) \<times> world) option" where
  "fetchReportPage dateFrom pageNumber w =
     (case authRequest (ReportsList dateFrom 50 pageNumber) w of
        None \<Rightarrow> None
      | Some (Inl e, w1) \<Rightarrow> Some (Inl e, w1)
      | Some (Inr (Listing rs pn tp tc), w1) \<Rightarrow>
          Some (Inr \<lparr>reports = rs, page_number = pn, total_pages = tp,
                     total_count = (if tc = Some 0 then None else tc)\<rparr>, w1)
      | Some (Inr _, w1) \<Rightarrow> Some (Inl ReportsNotArray, w1))"

definition getReportDetail ::
  "string \<Rightarrow> world \<Rightarrow> ((failure + resp_data) \<times> world) option" where
  "getReportDetail reportId w = authRequest (ReportItem reportId) w"

section \<open>File utilities and the download log\<close>

definition pathJoin :: "string \<Rightarrow> string \<Rightarrow> string" where
  "pathJoin base name = base @ ''/'' @ name"

text \<open>\<open>fs.ensureDir\<close> on the download directory: it is created, empty, if it is not there.\<close>

definition ensureDir :: "world \<Rightarrow> world" where
  "ensureDir w =
     (case dir w of
        None \<Rightarrow> w\<lparr>dir := Some \<lparr>entries = Map.empty, ledger_file = Absent\<rparr>\<rparr>
      | Some d \<Rightarrow> w)"

text \<open>Writing the whole content of a file of the directory.\<close>

definition putFile :: "string \<Rightarrow> string \<Rightarrow> world \<Rightarrow> world" where
  "putFile path content w =
     w\<lparr>dir := map_option (\<lambda>d. d\<lparr>entries := (entries d)(path \<mapsto> content)\<rparr>) (dir w)\<rparr>"

text \<open>
  \<open>downloadFileStream\<close>: the directory is ensured, the write stream creates the
  destination empty, then the plain \<open>axios.get\<close> (no token, no retry) either throws or
  delivers the bytes.
\<close>

definition downloadFileStream :: "string \<Rightarrow> string \<Rightarrow> world \<Rightarrow> (failure + string) \<times> world" where
  "downloadFileStream url destinationPath w =
     (let w0 = putFile destinationPath [] (ensureDir w);
          w1 = w0\<lparr>trace := trace w0 @ [Opened destinationPath]\<rparr>
      in case file_srv w1 (calls w1) url of
           (ms, Inl d) \<Rightarrow> (Inl (AxiosError d), performed (FileGet url) ms w1)
         | (ms, Inr bytes) \<Rightarrow>
             (Inr destinationPath, putFile destinationPath bytes (performed (FileGet url) ms w1)))"

definition calculateFileHash :: "env \<Rightarrow> string \<Rightarrow> world \<Rightarrow> failure + string" where
  "calculateFileHash E filePath w =
     (case files w filePath of
        None \<Rightarrow> Inl FsError
      | Some content \<Rightarrow> Inr (sha256_hex E content))"

text \<open>
  \<open>fs.renameSync\<close>: the content moves from the source path to the destination, replacing
  what was there; it throws when there is no file at the source path.
\<close>

definition moveFile :: "string \<Rightarrow> string \<Rightarrow> string \<Rightarrow> world \<Rightarrow> world" where
  "moveFile src dst content w =
     w\<lparr>dir := map_option
               (\<lambda>d. d\<lparr>entries := ((entries d)(src := None))(dst \<mapsto> content)\<rparr>) (dir w)\<rparr>"

definition renameSync :: "string \<Rightarrow> string \<Rightarrow> world \<Rightarrow> (failure + unit) \<times> world" where
  "renameSync src dst w =
     (case files w src of
        None \<Rightarrow> (Inl FsError, w)
      | Some content \<Rightarrow>
          (Inr (), (moveFile src dst content w)\<lparr>trace := trace w @ [Renamed src dst]\<rparr>))"

definition readDownloadLog :: "world \<Rightarrow> failure + ledger" where
  "readDownloadLog w =
     (case log_file w of
        Absent \<Rightarrow> Inr Map.empty
      | Malformed \<Rightarrow> Inl LogMalformed
      | Stored l \<Rightarrow> Inr l)"

text \<open>
  \<open>writeDownloadLog\<close>: \<open>fs.writeFileSync\<close> on the ledger file. Nothing here creates the
  directory; when it does not exist the call throws. \<open>storeLedger\<close> is the world after a
  write that went through.
\<close>

definition storeLedger :: "ledger \<Rightarrow> world \<Rightarrow> world" where
  "storeLedger l w =
     w\<lparr>dir := map_option (\<lambda>d. d\<lparr>ledger_file := Stored l\<rparr>) (dir w),
       trace := trace w @ [LogWritten]\<rparr>"

definition writeDownloadLog :: "ledger \<Rightarrow> world \<Rightarrow> (failure + unit) \<times> world" where
  "writeDownloadLog l w =
     (if dirExists w then (Inr (), storeLedger l w) else (Inl FsError, w))"

section \<open>Report processing\<close>

text \<open>\<open>detail?.data?.url\<close>, and \<open>None\<close> where \<open>!fileUrl\<close> holds.\<close>

definition detailUrl :: "resp_data \<Rightarrow> string option" where
  "detailUrl detail =
     (case detail of
        Detail u \<Rightarrow> (if falsyString u then None else u)
      | _ \<Rightarrow> None)"

definition reportFilename :: "string \<Rightarrow> string" where
  "reportFilename reportId = ''report_'' @ reportId @ ''.pdf''"

definition finalPathOf :: "env \<Rightarrow> string \<Rightarrow> string" where
  "finalPathOf E reportId = pathJoin (DOWNLOAD_DIR E) (reportFilename reportId)"

definition tempPathOf :: "env \<Rightarrow> string \<Rightarrow> string" where
  "tempPathOf E reportId = pathJoin (DOWNLOAD_DIR E) (''.tmp_'' @ reportFilename reportId)"

text \<open>The test under the comment \<open>skip unchanged\<close>.\<close>

definition skipUnchanged :: "env \<Rightarrow> string \<Rightarrow> ledger \<Rightarrow> world \<Rightarrow> bool" where
  "skipUnchanged E reportId downloadLog w =
     (case files w (finalPathOf E reportId) of
        None \<Rightarrow> False
      | Some content \<Rightarrow>
          (case downloadLog reportId of
             None \<Rightarrow> False
           | Some entry \<Rightarrow> hash entry = sha256_hex E content))"

text \<open>
  \<open>processReport\<close> mutates the ledger object it is given; the model returns the ledger
  with every result, thrown or not.
\<close>

definition processReport ::
  "env \<Rightarrow> report \<Rightarrow> ledger \<Rightarrow> world \<Rightarrow> ((failure + bool) \<times> ledger \<times> world) option" where
  "processReport E rep downloadLog w =
     (let reportId = report_id rep in
      case getReportDetail reportId w of
        None \<Rightarrow> None
      | Some (Inl e, w1) \<Rightarrow> Some (Inl e, downloadLog, w1)
      | Some (Inr detail, w1) \<Rightarrow>
          (case detailUrl detail of
             None \<Rightarrow> Some (Inr False, downloadLog, w1)
           | Some fileUrl \<Rightarrow>
               if skipUnchanged E reportId downloadLog w1 then Some (Inr False, downloadLog, w1)
               else
                 (case downloadFileStream fileUrl (tempPathOf E reportId) w1 of
                    (Inl e, w2) \<Rightarrow> Some (Inl e, downloadLog, w2)
                  | (Inr _, w2) \<Rightarrow>
                      (case calculateFileHash E (tempPathOf E reportId) w2 of
                         Inl e \<Rightarrow> Some (Inl e, downloadLog, w2)
                       | Inr newHash \<Rightarrow>
                           (case renameSync (tempPathOf E reportId) (finalPathOf E reportId) w2 of
                              (Inl e, w3) \<Rightarrow> Some (Inl e, downloadLog, w3)
                            | (Inr _, w3) \<Rightarrow>
                                Some (Inr True,
                                      downloadLog(reportId \<mapsto>
                                        \<lparr>filename = reportFilename reportId, hash = newHash,
                                         downloaded_at = now w3\<rparr>),
                                      w3))))))"

section \<open>The sweep\<close>

record loop_state =
  pageNumber :: int
  totalPages :: "int option"
  totalReports :: "int option"
  totalDownloaded :: nat
  downloadLog :: ledger
  downloadedIds :: "string set"

text \<open>The \<open>for\<close> loop over the records of one page.\<close>

fun processReports ::
  "env \<Rightarrow> report list \<Rightarrow> loop_state \<Rightarrow> world \<Rightarrow> ((failure + loop_state) \<times> world) option" where
  "processReports E [] st w = Some (Inr st, w)"
| "processReports E (rep # rest) st w =
     (if report_id rep \<in> downloadedIds st then processReports E rest st w
      else
        (case processReport E rep (downloadLog st) w of
           None \<Rightarrow> None
         | Some (Inl e, l, w1) \<Rightarrow> Some (Inl e, w1)
         | Some (Inr downloaded, l, w1) \<Rightarrow>
             if downloaded then
               processReports E rest
                 (st\<lparr>downloadLog := l,
                     downloadedIds := insert (report_id rep) (downloadedIds st),
                     totalDownloaded := Suc (totalDownloaded st)\<rparr>) w1
             else processReports E rest (st\<lparr>downloadLog := l\<rparr>) w1))"

text \<open>The two assignments after the fetch, which only feed the progress messages.\<close>

definition noteTotals :: "loop_state \<Rightarrow> page \<Rightarrow> loop_state" where
  "noteTotals st pg =
     st\<lparr>totalPages := (if totalPages st = None then Some (total_pages pg) else totalPages st),
        totalReports := (if totalReports st = None then total_count pg else totalReports st)\<rparr>"

text \<open>The \<open>while (true)\<close> loop of \<open>main\<close>, from the fetch of a page to the next one.\<close>

partial_function (option) mainLoop ::
  "env \<Rightarrow> string \<Rightarrow> loop_state \<Rightarrow> world \<Rightarrow> ((failure + loop_state) \<times> world) option" where
  "mainLoop E dateFrom st w =
     (case fetchReportPage dateFrom (pageNumber st) w of
        None \<Rightarrow> None
      | Some (Inl e, w1) \<Rightarrow> Some (Inl e, w1)
      | Some (Inr pg, w1) \<Rightarrow>
          (case processReports E (reports pg) (noteTotals st pg) w1 of
             None \<Rightarrow> None
           | Some (Inl e, w2) \<Rightarrow> Some (Inl e, w2)
           | Some (Inr st2, w2) \<Rightarrow>
               (case writeDownloadLog (downloadLog st2) w2 of
                  (Inl e, w3) \<Rightarrow> Some (Inl e, w3)
                | (Inr _, w3) \<Rightarrow>
                    if page_number pg \<ge> total_pages pg then Some (Inr st2, w3)
                    else mainLoop E dateFrom (st2\<lparr>pageNumber := pageNumber st2 + 1\<rparr>) w3)))"

text \<open>
  \<open>main\<close>: every error is caught and logged, so the function returns in both cases. The
  lower bound \<open>dateFrom\<close> of the listing is computed from the clock by \<open>dayjs\<close> before the
  loop; the model takes the resulting string as an input.
\<close>

datatype outcome = Finished nat | Failed failure

text \<open>The variables of \<open>main\<close> before the loop, given the ledger that was read.\<close>

definition initialState :: "ledger \<Rightarrow> loop_state" where
  "initialState l =
     \<lparr>pageNumber = 1, totalPages = None, totalReports = None,
      totalDownloaded = 0, downloadLog = l, downloadedIds = dom l\<rparr>"

definition main :: "env \<Rightarrow> string \<Rightarrow> world \<Rightarrow> (outcome \<times> world) option" where
  "main E dateFrom w =
     (case getValidToken w of
        (Inl d, w1) \<Rightarrow> Some (Failed (AxiosError d), w1)
      | (Inr _, w1) \<Rightarrow>
          (case readDownloadLog w1 of
             Inl e \<Rightarrow> Some (Failed e, w1)
           | Inr l \<Rightarrow>
               (case mainLoop E dateFrom (initialState l) w1 of
                  None \<Rightarrow> None
                | Some (Inl e, w2) \<Rightarrow> Some (Failed e, w2)
                | Some (Inr st, w2) \<Rightarrow> Some (Finished (totalDownloaded st), w2))))"

text \<open>A run of the program: a new process starts with both module variables \<open>null\<close>.\<close>

definition startProcess :: "world \<Rightarrow> world" where
  "startProcess w = w\<lparr>cachedToken := None, tokenExpiresAt := None\<rparr>"

definition runSweep :: "env \<Rightarrow> string \<Rightarrow> world \<Rightarrow> (outcome \<times> world) option" where
  "runSweep E dateFrom w = main E dateFrom (startProcess w)"

section \<open>Example surroundings\<close>

text \<open>
  A small remote side used to run the definitions: the token exchange always answers
  \<open>tok\<close>; the listing has three pages, reports 7 and 8 on the first; report 7 has an
  artifact, report 8 has none. The download directory exists and is empty, timers fire 2
  milliseconds late. The digest is replaced by the identity.
\<close>

definition exEnv :: env where
  "exEnv = \<lparr>DOWNLOAD_DIR = ''d'', sha256_hex = (\<lambda>s. s)\<rparr>"

definition exWorld :: world where
  "exWorld =
     \<lparr>cachedToken = None, tokenExpiresAt = None, now = 1000, calls = 0,
      token_srv = (\<lambda>n a. (5, Inr (Some ''tok''))),
      api_srv = (\<lambda>n ep auth.
         case ep of
           ReportsList d sz p \<Rightarrow>
             (1, Inr (Listing (if p = 1 then [\<lparr>report_id = ''7''\<rparr>, \<lparr>report_id = ''8''\<rparr>] else [])
                        p 3 None))
         | ReportItem i \<Rightarrow> (1, Inr (Detail (if i = ''7'' then Some ''u7'' else None)))),
      file_srv = (\<lambda>n u. (2, Inr ''bytes'')),
      timer_lag = (\<lambda>n. 2),
      dir = Some \<lparr>entries = Map.empty, ledger_file = Absent\<rparr>, trace = []\<rparr>"

text \<open>
  The same remote side, except that the second HTTP call of the run (the first one after
  the token exchange) is rejected with the given body.
\<close>

definition exWorldFailing :: "err_data option \<Rightarrow> world" where
  "exWorldFailing d =
     exWorld\<lparr>api_srv := (\<lambda>n ep auth.
        if n = 1 then (3, Inl d) else (1, Inr (Detail (Some ''u7''))))\<rparr>"

definition expiredBody :: err_data where
  "expiredBody = \<lparr>error_description = Some ''Access token has expired.'', error_type = None\<rparr>"

definition limitedBody :: err_data where
  "limitedBody = \<lparr>error_description = Some ''Rate limit exceeded, Retry in 5 seconds'',
                   error_type = Some ''RateLimitError''\<rparr>"

definition bothBody :: err_data where
  "bothBody = \<lparr>error_description = Some ''Access token has expired.'',
                error_type = Some ''RateLimitError''\<rparr>"

definition hugeBody :: err_data where
  "hugeBody = \<lparr>error_description = Some ''retry in 2147484 seconds'',
                error_type = Some ''RateLimitError''\<rparr>"

text \<open>The same remote side, except that every detail request is rejected with no body.\<close>

definition exWorldRejecting :: world where
  "exWorldRejecting =
     exWorld\<lparr>api_srv := (\<lambda>n ep auth.
        case ep of
          ReportsList d sz p \<Rightarrow> api_srv exWorld n ep auth
        | ReportItem i \<Rightarrow> (1, Inl None))\<rparr>"

text \<open>The same remote side, except that the listing numbers its pages from 0.\<close>

definition exWorldZeroBased :: world where
  "exWorldZeroBased =
     exWorld\<lparr>api_srv := (\<lambda>n ep auth.
        case ep of
          ReportsList d sz p \<Rightarrow>
            (1, Inr (Listing (if p = 1 then [\<lparr>report_id = ''7''\<rparr>, \<lparr>report_id = ''8''\<rparr>] else [])
                       (p - 1) 3 None))
        | ReportItem i \<Rightarrow> api_srv exWorld n ep auth)\<rparr>"

text \<open>
  A first run: the download directory does not exist yet, and the only report of the
  first page has no artifact. Every request is answered.
\<close>

definition exWorldFresh :: world where
  "exWorldFresh =
     exWorld\<lparr>api_srv := (\<lambda>n ep auth.
        case ep of
          ReportsList d sz p \<Rightarrow>
            (1, Inr (Listing (if p = 1 then [\<lparr>report_id = ''8''\<rparr>] else []) p 3 None))
        | ReportItem i \<Rightarrow> (1, Inr (Detail None))),
       dir := None\<rparr>"

text \<open>
  The example after a sweep that downloaded report 7, with the final file then deleted
  from outside: the ledger file has the entry, no file stands at the final path.
\<close>

definition exLedger :: ledger where
  "exLedger = [''7'' \<mapsto> \<lparr>filename = ''report_7.pdf'', hash = ''bytes'', downloaded_at = 1009\<rparr>]"

definition exWorldDeleted :: world where
  "exWorldDeleted =
     exWorld\<lparr>dir := Some \<lparr>entries = Map.empty, ledger_file = Stored exLedger\<rparr>\<rparr>"

section \<open>Observations on a run\<close>

text \<open>The events that touch an artifact file.\<close>

fun fileEvent :: "event \<Rightarrow> bool" where
  "fileEvent (Opened p) = True"
| "fileEvent (Renamed p q) = True"
| "fileEvent e = False"

text \<open>Nothing on disk changed between two worlds, and no artifact file was touched.\<close>

definition sameDisk :: "world \<Rightarrow> world \<Rightarrow> bool" where
  "sameDisk w w' =
     (files w' = files w \<and> log_file w' = log_file w \<and>
      filter fileEvent (trace w') = filter fileEvent (trace w))"

text \<open>The remote side is the same oracle in both worlds.\<close>

definition sameRemote :: "world \<Rightarrow> world \<Rightarrow> bool" where
  "sameRemote w w' =
     (token_srv w' = token_srv w \<and> api_srv w' = api_srv w \<and> file_srv w' = file_srv w)"

text \<open>The waits of a trace, and the pages of the listing that were requested.\<close>

fun sleeps :: "event list \<Rightarrow> nat list" where
  "sleeps [] = []"
| "sleeps (Slept ms # es) = ms # sleeps es"
| "sleeps (e # es) = sleeps es"

fun pagesRequested :: "event list \<Rightarrow> int list" where
  "pagesRequested [] = []"
| "pagesRequested (Sent (Api (ReportsList d sz p) a) # es) = p # pagesRequested es"
| "pagesRequested (e # es) = pagesRequested es"

text \<open>
  The listing endpoint always answers with a listing, whose \<open>page_number\<close> depends on the
  page asked for and whose \<open>total_pages\<close> is the same on every page.
\<close>

definition listingAnswers :: "world \<Rightarrow> (int \<Rightarrow> int) \<Rightarrow> int \<Rightarrow> bool" where
  "listingAnswers w pn tp =
     (\<forall>n d sz p a. \<exists>ms rs tc.
        api_srv w n (ReportsList d sz p) a = (ms, Inr (Listing rs (pn p) tp tc)))"

text \<open>
  Every request is answered: the token exchange with a token, the listing as above, a
  detail request with some payload, an artifact request with the bytes.
\<close>

definition cooperative :: "world \<Rightarrow> (int \<Rightarrow> int) \<Rightarrow> int \<Rightarrow> bool" where
  "cooperative w pn tp =
     ((\<forall>n a. \<exists>ms tok. token_srv w n a = (ms, Inr tok)) \<and>
      listingAnswers w pn tp \<and>
      (\<forall>n i a. \<exists>ms x. api_srv w n (ReportItem i) a = (ms, Inr x)) \<and>
      (\<forall>n u. \<exists>ms bytes. file_srv w n u = (ms, Inr bytes)))"





section \<open>The download directory: basic facts\<close>

lemma files_other_fields [simp]:
  "files (w\<lparr>cachedToken := a\<rparr>) = files w"
  "files (w\<lparr>tokenExpiresAt := b\<rparr>) = files w"
  "files (w\<lparr>now := c\<rparr>) = files w"
  "files (w\<lparr>calls := d\<rparr>) = files w"
  "files (w\<lparr>trace := e\<rparr>) = files w"
  by (simp_all add: files_def)

lemma log_file_other_fields [simp]:
  "log_file (w\<lparr>cachedToken := a\<rparr>) = log_file w"
  "log_file (w\<lparr>tokenExpiresAt := b\<rparr>) = log_file w"
  "log_file (w\<lparr>now := c\<rparr>) = log_file w"
  "log_file (w\<lparr>calls := d\<rparr>) = log_file w"
  "log_file (w\<lparr>trace := e\<rparr>) = log_file w"
  by (simp_all add: log_file_def)

lemma dirExists_other_fields [simp]:
  "dirExists (w\<lparr>cachedToken := a\<rparr>) = dirExists w"
  "dirExists (w\<lparr>tokenExpiresAt := b\<rparr>) = dirExists w"
  "dirExists (w\<lparr>now := c\<rparr>) = dirExists w"
  "dirExists (w\<lparr>calls := d\<rparr>) = dirExists w"
  "dirExists (w\<lparr>trace := e\<rparr>) = dirExists w"
  by (simp_all add: dirExists_def)

lemma ensureDir_fields [simp]:
  "files (ensureDir w) = files w" "log_file (ensureDir w) = log_file w"
  "dirExists (ensureDir w)"
  "cachedToken (ensureDir w) = cachedToken w" "tokenExpiresAt (ensureDir w) = tokenExpiresAt w"
  "now (ensureDir w) = now w" "calls (ensureDir w) = calls w" "trace (ensureDir w) = trace w"
  "token_srv (ensureDir w) = token_srv w" "api_srv (ensureDir w) = api_srv w"
  "file_srv (ensureDir w) = file_srv w" "timer_lag (ensureDir w) = timer_lag w"
  by (simp_all add: ensureDir_def files_def log_file_def dirExists_def split: option.splits)

lemma putFile_fields [simp]:
  "log_file (putFile p c w) = log_file w" "dirExists (putFile p c w) = dirExists w"
  "cachedToken (putFile p c w) = cachedToken w" "tokenExpiresAt (putFile p c w) = tokenExpiresAt w"
  "now (putFile p c w) = now w" "calls (putFile p c w) = calls w" "trace (putFile p c w) = trace w"
  "token_srv (putFile p c w) = token_srv w" "api_srv (putFile p c w) = api_srv w"
  "file_srv (putFile p c w) = file_srv w" "timer_lag (putFile p c w) = timer_lag w"
  by (simp_all add: putFile_def log_file_def dirExists_def split: option.splits)

lemma files_putFile [simp]:
  "dirExists w \<Longrightarrow> files (putFile p c w) = (files w)(p \<mapsto> c)"
  by (auto simp: putFile_def files_def dirExists_def)

lemma moveFile_fields [simp]:
  "log_file (moveFile s d c w) = log_file w" "dirExists (moveFile s d c w) = dirExists w"
  "cachedToken (moveFile s d c w) = cachedToken w"
  "tokenExpiresAt (moveFile s d c w) = tokenExpiresAt w"
  "now (moveFile s d c w) = now w" "calls (moveFile s d c w) = calls w"
  "trace (moveFile s d c w) = trace w"
  "token_srv (moveFile s d c w) = token_srv w" "api_srv (moveFile s d c w) = api_srv w"
  "file_srv (moveFile s d c w) = file_srv w" "timer_lag (moveFile s d c w) = timer_lag w"
  by (simp_all add: moveFile_def log_file_def dirExists_def split: option.splits)

lemma files_moveFile [simp]:
  "dirExists w \<Longrightarrow> files (moveFile s d c w) = ((files w)(s := None))(d \<mapsto> c)"
  by (auto simp: moveFile_def files_def dirExists_def)

lemma storeLedger_fields [simp]:
  "files (storeLedger l w) = files w" "dirExists (storeLedger l w) = dirExists w"
  "cachedToken (storeLedger l w) = cachedToken w"
  "tokenExpiresAt (storeLedger l w) = tokenExpiresAt w"
  "now (storeLedger l w) = now w" "calls (storeLedger l w) = calls w"
  "trace (storeLedger l w) = trace w @ [LogWritten]"
  "token_srv (storeLedger l w) = token_srv w" "api_srv (storeLedger l w) = api_srv w"
  "file_srv (storeLedger l w) = file_srv w" "timer_lag (storeLedger l w) = timer_lag w"
  by (simp_all add: storeLedger_def files_def dirExists_def split: option.splits)

lemma log_file_storeLedger [simp]:
  "dirExists w \<Longrightarrow> log_file (storeLedger l w) = Stored l"
  by (auto simp: storeLedger_def log_file_def dirExists_def)


section \<open>Token handling: properties\<close>

lemma getValidToken_cases:
  "getValidToken w = (Inr tok, w') \<Longrightarrow>
     (tokenStale w \<and>
      (\<exists>ms. token_srv w (calls w) ASSERTION_EXPIRES_IN = (ms, Inr tok) \<and>
         w' = (performed (TokenExchange ASSERTION_EXPIRES_IN) ms w)
                \<lparr>cachedToken := tok,
                 tokenExpiresAt := Some (now w + int ms + TOKEN_REFRESH_MS)\<rparr>))
     \<or> (\<not> tokenStale w \<and> w' = w \<and> tok = cachedToken w)"
  by (auto simp: getValidToken_def getAccessToken_def performed_def
           split: if_splits prod.splits sum.splits)

text \<open>
  C6. Whenever \<open>getValidToken\<close> returns a token, the local clock does not judge the cached
  token expired at that moment, and the token returned is the cached one. When the cache
  was empty or the local expiry had passed, the token is the answer of a token exchange
  made by this call, cached with an expiry of four minutes from then. The four minutes are
  strictly less than the five minutes the signed assertion is valid for.
\<close>

theorem getValidToken_never_expired:
  assumes "getValidToken w = (Inr tok, w')"
  shows "\<not> locallyExpired w' \<and> cachedToken w' = tok \<and>
         (tokenStale w \<longrightarrow>
            (\<exists>ms. token_srv w (calls w) ASSERTION_EXPIRES_IN = (ms, Inr tok)) \<and>
            trace w' = trace w @ [Sent (TokenExchange ASSERTION_EXPIRES_IN)] \<and>
            tokenExpiresAt w' = Some (now w' + 4 * 60 * 1000)) \<and>
         (\<exists>ttl. timespan_ms ASSERTION_EXPIRES_IN = Some ttl \<and> ttl = 5 * 60 * 1000 \<and>
            TOKEN_REFRESH_MS = 4 * 60 * 1000 \<and> TOKEN_REFRESH_MS < int ttl)"
proof -
  have durations: "\<exists>ttl. timespan_ms ASSERTION_EXPIRES_IN = Some ttl \<and> ttl = 5 * 60 * 1000 \<and>
            TOKEN_REFRESH_MS = 4 * 60 * 1000 \<and> TOKEN_REFRESH_MS < int ttl"
    by (simp add: timespan_ms_def ASSERTION_EXPIRES_IN_def TOKEN_REFRESH_MS_def isDigit_def
          decimalValue_def digitVal_def)
  from getValidToken_cases [OF assms] show ?thesis
  proof
    assume "tokenStale w \<and>
      (\<exists>ms. token_srv w (calls w) ASSERTION_EXPIRES_IN = (ms, Inr tok) \<and>
         w' = (performed (TokenExchange ASSERTION_EXPIRES_IN) ms w)
                \<lparr>cachedToken := tok,
                 tokenExpiresAt := Some (now w + int ms + TOKEN_REFRESH_MS)\<rparr>)"
    then show ?thesis
      using durations by (auto simp: locallyExpired_def performed_def TOKEN_REFRESH_MS_def)
  next
    assume "\<not> tokenStale w \<and> w' = w \<and> tok = cachedToken w"
    then show ?thesis
      using durations by (simp add: tokenStale_def)
  qed
qed

theorem getValidToken_never_expired_witness:
  "\<exists>w'. getValidToken (exWorld\<lparr>cachedToken := Some ''old'', tokenExpiresAt := Some 900\<rparr>)
           = (Inr (Some ''tok''), w') \<and>
         tokenStale (exWorld\<lparr>cachedToken := Some ''old'', tokenExpiresAt := Some 900\<rparr>) \<and>
         \<not> locallyExpired w' \<and> cachedToken w' = Some ''tok'' \<and>
         tokenExpiresAt w' = Some 241005"
proof -
  let ?w = "exWorld\<lparr>cachedToken := Some ''old'', tokenExpiresAt := Some 900\<rparr>"
  obtain w' where run: "getValidToken ?w = (Inr (Some ''tok''), w')"
    by (simp add: getValidToken_def getAccessToken_def tokenStale_def locallyExpired_def
          falsyString_def falsyNumber_def exWorld_def)
  have stale: "tokenStale ?w"
    by (simp add: tokenStale_def locallyExpired_def exWorld_def)
  have "now w' = 1005"
    using run
    by (simp add: getValidToken_def getAccessToken_def tokenStale_def locallyExpired_def
          falsyString_def falsyNumber_def exWorld_def performed_def split: if_splits)
      (auto simp: performed_def)
  with getValidToken_never_expired [OF run] stale run show ?thesis
    by auto
qed

section \<open>What the request wrapper leaves alone\<close>

lemma sleeps_append: "sleeps (xs @ ys) = sleeps xs @ sleeps ys"
  by (induction xs rule: sleeps.induct) simp_all

lemma pagesRequested_append: "pagesRequested (xs @ ys) = pagesRequested xs @ pagesRequested ys"
  by (induction xs rule: pagesRequested.induct) simp_all

lemma getValidToken_frame:
  "getValidToken w = (r, w') \<Longrightarrow> sameDisk w w' \<and> sameRemote w w'"
  by (auto simp: getValidToken_def getAccessToken_def performed_def sameDisk_def sameRemote_def
           split: if_splits prod.splits sum.splits)

lemma tryRequest_frame:
  "tryRequest ep w = (r, w') \<Longrightarrow> sameDisk w w' \<and> sameRemote w w'"
  by (auto simp: tryRequest_def performed_def sameDisk_def sameRemote_def
           split: prod.splits sum.splits dest!: getValidToken_frame)

text \<open>
  The induction principle of the retry loop: a property of every call that returns follows
  from the three ways an iteration ends and the two ways it goes round.
\<close>

lemma authRequest_returns_induct [consumes 1, case_names Success Expired RateLimit Failure]:
  assumes ret: "authRequest ep w = Some y"
    and success: "\<And>w r w1. tryRequest ep w = (Inr r, w1) \<Longrightarrow> P w (Inr r, w1)"
    and expired: "\<And>w d w1 y. tryRequest ep w = (Inl d, w1) \<Longrightarrow> isExpired d \<Longrightarrow>
        authRequest ep (w1\<lparr>cachedToken := None\<rparr>) = Some y \<Longrightarrow>
        P (w1\<lparr>cachedToken := None\<rparr>) y \<Longrightarrow> P w y"
    and ratelimit: "\<And>w d w1 y. tryRequest ep w = (Inl d, w1) \<Longrightarrow> \<not> isExpired d \<Longrightarrow>
        isRateLimit d \<Longrightarrow>
        authRequest ep (sleep (timesNumber (waitSeconds d) 1000) w1) = Some y \<Longrightarrow>
        P (sleep (timesNumber (waitSeconds d) 1000) w1) y \<Longrightarrow> P w y"
    and failure: "\<And>w d w1. tryRequest ep w = (Inl d, w1) \<Longrightarrow> \<not> isExpired d \<Longrightarrow>
        \<not> isRateLimit d \<Longrightarrow> P w (Inl (AxiosError d), w1)"
  shows "P w y"
proof -
  have "authRequest e w = Some y \<Longrightarrow> authRequest e w = Some y \<and> (e = ep \<longrightarrow> P w y)"
    for e w y
  proof (induction rule: authRequest.raw_induct [rotated, consumes 1])
    case (1 f ep0 w y)
    obtain out w1 where t: "tryRequest ep0 w = (out, w1)" by (cases "tryRequest ep0 w")
    show ?case
    proof (cases out)
      case (Inr r)
      with 1(2) t have y: "y = (Inr r, w1)" by simp
      have "authRequest ep0 w = Some y"
        using t Inr y by (subst authRequest.simps) simp
      moreover have "ep0 = ep \<Longrightarrow> P w y"
        using success [of w r w1] t Inr y by simp
      ultimately show ?thesis by simp
    next
      case (Inl d)
      show ?thesis
      proof (cases "isExpired d")
        case True
        with 1(2) t Inl have "f ep0 (w1\<lparr>cachedToken := None\<rparr>) = Some y" by simp
        from 1(1) [OF this]
        have ih: "authRequest ep0 (w1\<lparr>cachedToken := None\<rparr>) = Some y"
          "ep0 = ep \<Longrightarrow> P (w1\<lparr>cachedToken := None\<rparr>) y" by simp_all
        have "authRequest ep0 w = Some y"
          using t Inl True ih(1) by (subst authRequest.simps) simp
        moreover have "ep0 = ep \<Longrightarrow> P w y"
          using expired [of w d w1 y] t Inl True ih by simp
        ultimately show ?thesis by simp
      next
        case False
        note ne = this
        show ?thesis
        proof (cases "isRateLimit d")
          case True
          with 1(2) t Inl ne
          have "f ep0 (sleep (timesNumber (waitSeconds d) 1000) w1) = Some y" by simp
          from 1(1) [OF this]
          have ih: "authRequest ep0 (sleep (timesNumber (waitSeconds d) 1000) w1) = Some y"
            "ep0 = ep \<Longrightarrow> P (sleep (timesNumber (waitSeconds d) 1000) w1) y" by simp_all
          have "authRequest ep0 w = Some y"
            using t Inl ne True ih(1) by (subst authRequest.simps) simp
          moreover have "ep0 = ep \<Longrightarrow> P w y"
            using ratelimit [of w d w1 y] t Inl ne True ih by simp
          ultimately show ?thesis by simp
        next
          case False
          with 1(2) t Inl ne have y: "y = (Inl (AxiosError d), w1)" by simp
          have "authRequest ep0 w = Some y"
            using t Inl ne False y by (subst authRequest.simps) simp
          moreover have "ep0 = ep \<Longrightarrow> P w y"
            using failure [of w d w1] t Inl ne False y by simp
          ultimately show ?thesis by simp
        qed
      qed
    qed
  qed
  from this [OF ret] show ?thesis by simp
qed

lemma authRequest_frame:
  assumes "authRequest ep w = Some (r, w')"
  shows "sameDisk w w' \<and> sameRemote w w'"
proof -
  have "sameDisk w (snd (r, w')) \<and> sameRemote w (snd (r, w'))"
    using assms
  proof (induction rule: authRequest_returns_induct)
    case (Success w r w1)
    then show ?case using tryRequest_frame by simp
  next
    case (Expired w d w1 y)
    from tryRequest_frame [OF Expired(1)] Expired(4) show ?case
      by (simp add: sameDisk_def sameRemote_def)
  next
    case (RateLimit w d w1 y)
    from tryRequest_frame [OF RateLimit(1)] RateLimit(5) show ?case
      by (simp add: sameDisk_def sameRemote_def sleep_def)
  next
    case (Failure w d w1)
    then show ?case using tryRequest_frame by simp
  qed
  then show ?thesis by simp
qed

text \<open>Which listing pages a call of the wrapper asks for.\<close>

lemma listingAnswers_sameRemote:
  "sameRemote w w' \<Longrightarrow> listingAnswers w pn tp \<Longrightarrow> listingAnswers w' pn tp"
  by (simp add: sameRemote_def listingAnswers_def)

lemma getValidToken_pages:
  "getValidToken w = (r, w1) \<Longrightarrow> pagesRequested (trace w1) = pagesRequested (trace w)"
  by (auto simp: getValidToken_def getAccessToken_def performed_def pagesRequested_append
      split: prod.splits sum.splits if_splits)

lemma tryRequest_listing_pages:
  assumes "listingAnswers w pn tp" and "tryRequest (ReportsList d sz p) w = (out, w1)"
  shows "(\<exists>rs tc. out = Inr (Listing rs (pn p) tp tc) \<and>
            pagesRequested (trace w1) = pagesRequested (trace w) @ [p]) \<or>
         (\<exists>e. out = Inl e \<and> pagesRequested (trace w1) = pagesRequested (trace w))"
proof (cases "getValidToken w")
  case (Pair r w0)
  show ?thesis
  proof (cases r)
    case (Inl e)
    with Pair assms(2) getValidToken_pages [OF Pair] show ?thesis
      by (auto simp: tryRequest_def)
  next
    case (Inr tok)
    from getValidToken_frame [OF Pair] assms(1) have "listingAnswers w0 pn tp"
      using listingAnswers_sameRemote by blast
    then obtain ms rs tc where
      "api_srv w0 (calls w0) (ReportsList d sz p) (bearer tok) = (ms, Inr (Listing rs (pn p) tp tc))"
      unfolding listingAnswers_def by blast
    with Pair Inr assms(2) getValidToken_pages [OF Pair] show ?thesis
      by (auto simp: tryRequest_def performed_def pagesRequested_append)
  qed
qed

lemma tryRequest_item_pages:
  "tryRequest (ReportItem i) w = (out, w1) \<Longrightarrow>
     pagesRequested (trace w1) = pagesRequested (trace w)"
  by (auto simp: tryRequest_def performed_def pagesRequested_append
      split: prod.splits sum.splits dest: getValidToken_pages)

lemma authRequest_listing_pages:
  assumes "authRequest (ReportsList d sz p) w = Some (r, w')" and "listingAnswers w pn tp"
  shows "(\<exists>rs tc. r = Inr (Listing rs (pn p) tp tc) \<and>
            pagesRequested (trace w') = pagesRequested (trace w) @ [p]) \<or>
         (\<exists>e. r = Inl e \<and> pagesRequested (trace w') = pagesRequested (trace w))"
proof -
  have "listingAnswers w pn tp \<longrightarrow>
        ((\<exists>rs tc. fst (r, w') = Inr (Listing rs (pn p) tp tc) \<and>
            pagesRequested (trace (snd (r, w'))) = pagesRequested (trace w) @ [p]) \<or>
         (\<exists>e. fst (r, w') = Inl e \<and> pagesRequested (trace (snd (r, w'))) = pagesRequested (trace w)))"
    using assms(1)
  proof (induction rule: authRequest_returns_induct)
    case (Success w r w1)
    then show ?case using tryRequest_listing_pages [of w pn tp d sz p "Inr r" w1] by auto
  next
    case (Expired w d' w1 y)
    show ?case
    proof
      assume la: "listingAnswers w pn tp"
      from tryRequest_listing_pages [OF la Expired(1)]
      have pg: "pagesRequested (trace w1) = pagesRequested (trace w)" by auto
      from tryRequest_frame [OF Expired(1)] la
      have "listingAnswers (w1\<lparr>cachedToken := None\<rparr>) pn tp"
        by (simp add: sameRemote_def listingAnswers_def)
      with Expired(4) pg show "(\<exists>rs tc. fst y = Inr (Listing rs (pn p) tp tc) \<and>
            pagesRequested (trace (snd y)) = pagesRequested (trace w) @ [p]) \<or>
         (\<exists>e. fst y = Inl e \<and> pagesRequested (trace (snd y)) = pagesRequested (trace w))"
        by simp
    qed
  next
    case (RateLimit w d' w1 y)
    show ?case
    proof
      assume la: "listingAnswers w pn tp"
      from tryRequest_listing_pages [OF la RateLimit(1)]
      have pg: "pagesRequested (trace w1) = pagesRequested (trace w)" by auto
      from tryRequest_frame [OF RateLimit(1)] la
      have "listingAnswers (sleep (timesNumber (waitSeconds d') 1000) w1) pn tp"
        by (simp add: sameRemote_def listingAnswers_def sleep_def)
      moreover have "pagesRequested (trace (sleep (timesNumber (waitSeconds d') 1000) w1)) = pagesRequested (trace w)"
        using pg by (simp add: sleep_def pagesRequested_append)
      ultimately show "(\<exists>rs tc. fst y = Inr (Listing rs (pn p) tp tc) \<and>
            pagesRequested (trace (snd y)) = pagesRequested (trace w) @ [p]) \<or>
         (\<exists>e. fst y = Inl e \<and> pagesRequested (trace (snd y)) = pagesRequested (trace w))"
        using RateLimit(5) by simp
    qed
  next
    case (Failure w d' w1)
    then show ?case using tryRequest_listing_pages [of w pn tp d sz p "Inl d'" w1] by auto
  qed
  with assms(2) show ?thesis by simp
qed

lemma authRequest_item_pages:
  assumes "authRequest (ReportItem i) w = Some (r, w')"
  shows "pagesRequested (trace w') = pagesRequested (trace w)"
proof -
  have "pagesRequested (trace (snd (r, w'))) = pagesRequested (trace w)"
    using assms
  proof (induction rule: authRequest_returns_induct)
    case (Success w r w1)
    then show ?case using tryRequest_item_pages by simp
  next
    case (Expired w d w1 y)
    then show ?case using tryRequest_item_pages [OF Expired(1)] by simp
  next
    case (RateLimit w d w1 y)
    then show ?case using tryRequest_item_pages [OF RateLimit(1)]
      by (simp add: sleep_def pagesRequested_append)
  next
    case (Failure w d w1)
    then show ?case using tryRequest_item_pages by simp
  qed
  then show ?thesis by simp
qed

text \<open>What a call of \<open>processReport\<close> can change, and the induction principle of the loop over a page.\<close>

lemma finalPathOf_inj: "finalPathOf E k = finalPathOf E k' \<longleftrightarrow> k = k'"
  by (simp add: finalPathOf_def pathJoin_def reportFilename_def)

lemma finalPathOf_not_temp: "finalPathOf E k \<noteq> tempPathOf E k'"
  by (simp add: finalPathOf_def tempPathOf_def pathJoin_def reportFilename_def)

lemma processReport_cases [consumes 1, case_names Threw Skipped Downloaded]:
  assumes "processReport E rep l w = Some (res, l', w')"
  obtains e where "res = Inl e" "l' = l"
  | "res = Inr False" "l' = l" "sameDisk w w'"
  | c where "res = Inr True"
      "l' = l(report_id rep \<mapsto> \<lparr>filename = reportFilename (report_id rep),
                                 hash = sha256_hex E c, downloaded_at = now w'\<rparr>)"
      "files w' (finalPathOf E (report_id rep)) = Some c"
proof -
  from assms obtain r1 w1 where det: "getReportDetail (report_id rep) w = Some (r1, w1)"
    by (cases "getReportDetail (report_id rep) w") (auto simp: processReport_def)
  then have fr: "sameDisk w w1"
    by (auto simp: getReportDetail_def dest: authRequest_frame)
  from assms det fr have
    "(\<exists>e. res = Inl e \<and> l' = l) \<or> (res = Inr False \<and> l' = l \<and> sameDisk w w') \<or>
     (\<exists>c. res = Inr True \<and>
        l' = l(report_id rep \<mapsto> \<lparr>filename = reportFilename (report_id rep),
                                 hash = sha256_hex E c, downloaded_at = now w'\<rparr>) \<and>
        files w' (finalPathOf E (report_id rep)) = Some c)"
    by (auto simp: processReport_def Let_def downloadFileStream_def calculateFileHash_def
          renameSync_def performed_def
        split: option.splits prod.splits sum.splits if_splits)
  with that show thesis by blast
qed

lemma processReport_effect:
  assumes "processReport E rep l w = Some (res, l', w')"
  shows "sameRemote w w'" and "log_file w' = log_file w"
    and "pagesRequested (trace w') = pagesRequested (trace w)"
    and "\<And>p. p \<noteq> finalPathOf E (report_id rep) \<Longrightarrow> p \<noteq> tempPathOf E (report_id rep) \<Longrightarrow>
           files w' p = files w p"
proof -
  from assms obtain r1 w1 where det: "getReportDetail (report_id rep) w = Some (r1, w1)"
    by (cases "getReportDetail (report_id rep) w") (auto simp: processReport_def)
  then have fr: "sameDisk w w1" "sameRemote w w1"
    and pg: "pagesRequested (trace w1) = pagesRequested (trace w)"
    by (auto simp: getReportDetail_def dest: authRequest_frame authRequest_item_pages)
  from fr have f1: "files w1 = files w" "log_file w1 = log_file w"
    "token_srv w1 = token_srv w" "api_srv w1 = api_srv w" "file_srv w1 = file_srv w"
    by (simp_all add: sameDisk_def sameRemote_def)
  show "sameRemote w w'"
    using assms det f1
    by (auto simp: processReport_def Let_def downloadFileStream_def calculateFileHash_def
          renameSync_def performed_def sameRemote_def
        split: option.splits prod.splits sum.splits if_splits)
  show "log_file w' = log_file w"
    using assms det f1
    by (auto simp: processReport_def Let_def downloadFileStream_def calculateFileHash_def
          renameSync_def performed_def
        split: option.splits prod.splits sum.splits if_splits)
  show "pagesRequested (trace w') = pagesRequested (trace w)"
    using assms det pg
    by (auto simp: processReport_def Let_def downloadFileStream_def calculateFileHash_def
          renameSync_def performed_def pagesRequested_append
        split: option.splits prod.splits sum.splits if_splits)
  show "files w' p = files w p"
    if "p \<noteq> finalPathOf E (report_id rep)" "p \<noteq> tempPathOf E (report_id rep)" for p
    using assms det f1 that
    by (auto simp: processReport_def Let_def downloadFileStream_def calculateFileHash_def
          renameSync_def performed_def
        split: option.splits prod.splits sum.splits if_splits)
qed

lemma processReports_returns_induct
  [consumes 1, case_names Done Known Threw Downloaded NotDownloaded]:
  assumes ret: "processReports E reps st w = Some y"
    and finished: "\<And>st w. P [] st w (Inr st, w)"
    and known: "\<And>rep rest st w y. report_id rep \<in> downloadedIds st \<Longrightarrow>
        processReports E rest st w = Some y \<Longrightarrow> P rest st w y \<Longrightarrow> P (rep # rest) st w y"
    and threw: "\<And>rep rest st w e l w1. report_id rep \<notin> downloadedIds st \<Longrightarrow>
        processReport E rep (downloadLog st) w = Some (Inl e, l, w1) \<Longrightarrow>
        P (rep # rest) st w (Inl e, w1)"
    and downloaded: "\<And>rep rest st w l w1 y. report_id rep \<notin> downloadedIds st \<Longrightarrow>
        processReport E rep (downloadLog st) w = Some (Inr True, l, w1) \<Longrightarrow>
        processReports E rest
          (st\<lparr>downloadLog := l, downloadedIds := insert (report_id rep) (downloadedIds st),
              totalDownloaded := Suc (totalDownloaded st)\<rparr>) w1 = Some y \<Longrightarrow>
        P rest
          (st\<lparr>downloadLog := l, downloadedIds := insert (report_id rep) (downloadedIds st),
              totalDownloaded := Suc (totalDownloaded st)\<rparr>) w1 y \<Longrightarrow>
        P (rep # rest) st w y"
    and notDownloaded: "\<And>rep rest st w w1 y. report_id rep \<notin> downloadedIds st \<Longrightarrow>
        processReport E rep (downloadLog st) w = Some (Inr False, downloadLog st, w1) \<Longrightarrow>
        sameDisk w w1 \<Longrightarrow>
        processReports E rest st w1 = Some y \<Longrightarrow> P rest st w1 y \<Longrightarrow>
        P (rep # rest) st w y"
  shows "P reps st w y"
  using ret
proof (induction reps arbitrary: st w)
  case Nil
  then show ?case using finished by auto
next
  case (Cons rep rest)
  show ?case
  proof (cases "report_id rep \<in> downloadedIds st")
    case True
    with Cons.prems have r: "processReports E rest st w = Some y" by simp
    from known [OF True r Cons.IH [OF r]] show ?thesis .
  next
    case False
    show ?thesis
    proof (cases "processReport E rep (downloadLog st) w")
      case None
      with Cons.prems False show ?thesis by simp
    next
      case (Some a)
      obtain res l w1 where a: "a = (res, l, w1)" by (cases a)
      note pr = Some [unfolded a]
      from pr show ?thesis
      proof (cases rule: processReport_cases)
        case (Threw e)
        with Cons.prems False pr have "y = (Inl e, w1)" by simp
        with threw [OF False pr [unfolded Threw(1)]] show ?thesis by simp
      next
        case Skipped
        with Cons.prems False pr have r: "processReports E rest st w1 = Some y" by simp
        from notDownloaded [OF False _ Skipped(3) r Cons.IH [OF r]] pr Skipped
        show ?thesis by simp
      next
        case (Downloaded c)
        with Cons.prems False pr
        have r: "processReports E rest
          (st\<lparr>downloadLog := l, downloadedIds := insert (report_id rep) (downloadedIds st),
              totalDownloaded := Suc (totalDownloaded st)\<rparr>) w1 = Some y" by simp
        from downloaded [OF False pr [unfolded Downloaded(1)] r Cons.IH [OF r]]
        show ?thesis .
      qed
    qed
  qed
qed

lemma processReports_effect:
  assumes "processReports E reps st w = Some (res, w')"
  shows "sameRemote w w' \<and> log_file w' = log_file w \<and>
         pagesRequested (trace w') = pagesRequested (trace w) \<and>
         (\<forall>k. k \<in> downloadedIds st \<longrightarrow> files w' (finalPathOf E k) = files w (finalPathOf E k)) \<and>
         (\<forall>st'. res = Inr st' \<longrightarrow>
            pageNumber st' = pageNumber st \<and> downloadedIds st \<subseteq> downloadedIds st' \<and>
            (\<forall>k. k \<in> downloadedIds st \<longrightarrow> downloadLog st' k = downloadLog st k))"
proof -
  have "sameRemote w (snd (res, w')) \<and> log_file (snd (res, w')) = log_file w \<and>
         pagesRequested (trace (snd (res, w'))) = pagesRequested (trace w) \<and>
         (\<forall>k. k \<in> downloadedIds st \<longrightarrow>
            files (snd (res, w')) (finalPathOf E k) = files w (finalPathOf E k)) \<and>
         (\<forall>st'. fst (res, w') = Inr st' \<longrightarrow>
            pageNumber st' = pageNumber st \<and> downloadedIds st \<subseteq> downloadedIds st' \<and>
            (\<forall>k. k \<in> downloadedIds st \<longrightarrow> downloadLog st' k = downloadLog st k))"
    using assms
  proof (induction rule: processReports_returns_induct)
    case (Done st w)
    then show ?case by (simp add: sameRemote_def)
  next
    case (Known rep rest st w y)
    from Known(3) show ?case .
  next
    case (Threw rep rest st w e l w1)
    note eff = processReport_effect [OF Threw(2)]
    have "files w1 (finalPathOf E k) = files w (finalPathOf E k)" if "k \<in> downloadedIds st" for k
    proof -
      from that Threw(1) have "k \<noteq> report_id rep" by blast
      then show ?thesis
        by (intro eff(4)) (simp_all add: finalPathOf_inj finalPathOf_not_temp)
    qed
    with eff(1,2,3) show ?case by simp
  next
    case (Downloaded rep rest st w l w1 y)
    note eff = processReport_effect [OF Downloaded(2)]
    from Downloaded(2) have l: "\<And>k. k \<noteq> report_id rep \<Longrightarrow> l k = downloadLog st k"
      by (cases rule: processReport_cases) auto
    have ne: "k \<noteq> report_id rep" if "k \<in> downloadedIds st" for k
      using that Downloaded(1) by blast
    have files: "files w1 (finalPathOf E k) = files w (finalPathOf E k)" if "k \<in> downloadedIds st" for k
      using ne [OF that] by (intro eff(4)) (simp_all add: finalPathOf_inj finalPathOf_not_temp)
    let ?st = "st\<lparr>downloadLog := l, downloadedIds := insert (report_id rep) (downloadedIds st),
              totalDownloaded := Suc (totalDownloaded st)\<rparr>"
    from Downloaded(4) have
      ih1: "sameRemote w1 (snd y)" "log_file (snd y) = log_file w1"
        "pagesRequested (trace (snd y)) = pagesRequested (trace w1)"
      and ih2: "\<And>k. k \<in> downloadedIds ?st \<Longrightarrow>
            files (snd y) (finalPathOf E k) = files w1 (finalPathOf E k)"
      and ih3: "\<And>st'. fst y = Inr st' \<Longrightarrow>
            pageNumber st' = pageNumber ?st \<and> downloadedIds ?st \<subseteq> downloadedIds st' \<and>
            (\<forall>k. k \<in> downloadedIds ?st \<longrightarrow> downloadLog st' k = downloadLog ?st k)"
      by blast+
    have c1: "sameRemote w (snd y)"
      using eff(1) ih1(1) by (simp add: sameRemote_def)
    have c4: "files (snd y) (finalPathOf E k) = files w (finalPathOf E k)"
      if "k \<in> downloadedIds st" for k
      using ih2 [of k] files [OF that] that by simp
    have c5: "pageNumber st' = pageNumber st \<and> downloadedIds st \<subseteq> downloadedIds st' \<and>
            (\<forall>k. k \<in> downloadedIds st \<longrightarrow> downloadLog st' k = downloadLog st k)"
      if "fst y = Inr st'" for st'
    proof -
      note h = ih3 [OF that]
      have "downloadLog st' k = downloadLog st k" if k: "k \<in> downloadedIds st" for k
      proof -
        from h k have "downloadLog st' k = l k" by simp
        with l [OF ne [OF k]] show ?thesis by simp
      qed
      with h show ?thesis by auto
    qed
    have c2: "log_file (snd y) = log_file w" using ih1(2) eff(2) by simp
    have c3: "pagesRequested (trace (snd y)) = pagesRequested (trace w)"
      using ih1(3) eff(3) by simp
    from c1 c2 c3 c4 c5 show ?case by blast
  next
    case (NotDownloaded rep rest st w w1 y)
    note eff = processReport_effect [OF NotDownloaded(2)]
    from NotDownloaded(3) have f: "files w1 = files w" by (simp add: sameDisk_def)
    from NotDownloaded(5) have
      ih1: "sameRemote w1 (snd y)" "log_file (snd y) = log_file w1"
        "pagesRequested (trace (snd y)) = pagesRequested (trace w1)"
      and ih2: "\<And>k. k \<in> downloadedIds st \<Longrightarrow>
            files (snd y) (finalPathOf E k) = files w1 (finalPathOf E k)"
      and ih3: "\<And>st'. fst y = Inr st' \<Longrightarrow>
            pageNumber st' = pageNumber st \<and> downloadedIds st \<subseteq> downloadedIds st' \<and>
            (\<forall>k. k \<in> downloadedIds st \<longrightarrow> downloadLog st' k = downloadLog st k)"
      by blast+
    have c1: "sameRemote w (snd y)"
      using eff(1) ih1(1) by (simp add: sameRemote_def)
    have c2: "log_file (snd y) = log_file w" using ih1(2) eff(2) by simp
    have c3: "pagesRequested (trace (snd y)) = pagesRequested (trace w)"
      using ih1(3) eff(3) by simp
    have c4: "files (snd y) (finalPathOf E k) = files w (finalPathOf E k)"
      if "k \<in> downloadedIds st" for k
      using ih2 [OF that] f by simp
    from c1 c2 c3 c4 ih3 show ?case by blast
  qed
  then show ?thesis unfolding fst_conv snd_conv .
qed


lemma fetchReportPage_listing:
  assumes "fetchReportPage d p w = Some (r, w1)" and "listingAnswers w pn tp"
  shows "sameDisk w w1 \<and> sameRemote w w1 \<and>
         ((\<exists>pg. r = Inr pg \<and> page_number pg = pn p \<and> total_pages pg = tp \<and>
             pagesRequested (trace w1) = pagesRequested (trace w) @ [p]) \<or>
          (\<exists>e. r = Inl e))"
proof -
  from assms(1) obtain r0 where a: "authRequest (ReportsList d 50 p) w = Some (r0, w1)"
    by (cases "authRequest (ReportsList d 50 p) w")
       (auto simp: fetchReportPage_def split: sum.splits resp_data.splits)
  from authRequest_listing_pages [OF a assms(2)] authRequest_frame [OF a] assms(1) a
  show ?thesis
    by (auto simp: fetchReportPage_def)
qed


text \<open>The induction principle of the page loop, in the same way.\<close>

lemma mainLoop_returns_induct
  [consumes 1, case_names FetchFailed PageFailed WriteFailed LastPage NextPage]:
  assumes ret: "mainLoop E dateFrom st w = Some y"
    and fetchFailed: "\<And>st w e w1.
        fetchReportPage dateFrom (pageNumber st) w = Some (Inl e, w1) \<Longrightarrow> P st w (Inl e, w1)"
    and pageFailed: "\<And>st w pg w1 e w2.
        fetchReportPage dateFrom (pageNumber st) w = Some (Inr pg, w1) \<Longrightarrow>
        processReports E (reports pg) (noteTotals st pg) w1 = Some (Inl e, w2) \<Longrightarrow>
        P st w (Inl e, w2)"
    and writeFailed: "\<And>st w pg w1 st2 w2.
        fetchReportPage dateFrom (pageNumber st) w = Some (Inr pg, w1) \<Longrightarrow>
        processReports E (reports pg) (noteTotals st pg) w1 = Some (Inr st2, w2) \<Longrightarrow>
        \<not> dirExists w2 \<Longrightarrow>
        P st w (Inl FsError, w2)"
    and lastPage: "\<And>st w pg w1 st2 w2.
        fetchReportPage dateFrom (pageNumber st) w = Some (Inr pg, w1) \<Longrightarrow>
        processReports E (reports pg) (noteTotals st pg) w1 = Some (Inr st2, w2) \<Longrightarrow>
        dirExists w2 \<Longrightarrow>
        page_number pg \<ge> total_pages pg \<Longrightarrow>
        P st w (Inr st2, storeLedger (downloadLog st2) w2)"
    and nextPage: "\<And>st w pg w1 st2 w2 y.
        fetchReportPage dateFrom (pageNumber st) w = Some (Inr pg, w1) \<Longrightarrow>
        processReports E (reports pg) (noteTotals st pg) w1 = Some (Inr st2, w2) \<Longrightarrow>
        dirExists w2 \<Longrightarrow>
        page_number pg < total_pages pg \<Longrightarrow>
        mainLoop E dateFrom (st2\<lparr>pageNumber := pageNumber st2 + 1\<rparr>)
          (storeLedger (downloadLog st2) w2) = Some y \<Longrightarrow>
        P (st2\<lparr>pageNumber := pageNumber st2 + 1\<rparr>) (storeLedger (downloadLog st2) w2) y \<Longrightarrow>
        P st w y"
  shows "P st w y"
proof -
  have "mainLoop E' d st w = Some y \<Longrightarrow>
          mainLoop E' d st w = Some y \<and> (E' = E \<and> d = dateFrom \<longrightarrow> P st w y)"
    for E' d st w y
  proof (induction rule: mainLoop.raw_induct [rotated, consumes 1])
    case (1 f E' d st w y)
    note body = 1(2)
    show ?case
    proof (cases "fetchReportPage d (pageNumber st) w")
      case None
      with body show ?thesis by simp
    next
      case (Some a)
      obtain r w1 where a: "a = (r, w1)" by (cases a)
      show ?thesis
      proof (cases r)
        case (Inl e)
        with body Some a have y: "y = (Inl e, w1)" by simp
        have "mainLoop E' d st w = Some y"
          using Some a Inl y by (subst mainLoop.simps) simp
        moreover have "E' = E \<and> d = dateFrom \<Longrightarrow> P st w y"
          using fetchFailed [of st w e w1] Some a Inl y by simp
        ultimately show ?thesis by blast
      next
        case (Inr pg)
        note fetch = Some [unfolded a Inr]
        show ?thesis
        proof (cases "processReports E' (reports pg) (noteTotals st pg) w1")
          case None
          with body fetch show ?thesis by simp
        next
          case (Some b)
          obtain r2 w2 where b: "b = (r2, w2)" by (cases b)
          show ?thesis
          proof (cases r2)
            case (Inl e)
            with body fetch Some b have y: "y = (Inl e, w2)" by simp
            have "mainLoop E' d st w = Some y"
              using fetch Some b Inl y by (subst mainLoop.simps) simp
            moreover have "E' = E \<and> d = dateFrom \<Longrightarrow> P st w y"
              using pageFailed [of st w pg w1 e w2] fetch Some b Inl y by simp
            ultimately show ?thesis by blast
          next
            case (Inr st2)
            note proc = Some [unfolded b Inr]
            show ?thesis
            proof (cases "dirExists w2")
              case False
              with body fetch proc
              have y: "y = (Inl FsError, w2)" by (simp add: writeDownloadLog_def)
              have "mainLoop E' d st w = Some y"
                using fetch proc False y
                by (subst mainLoop.simps) (simp add: writeDownloadLog_def)
              moreover have "E' = E \<and> d = dateFrom \<Longrightarrow> P st w y"
                using writeFailed [of st w pg w1 st2 w2] fetch proc False y by simp
              ultimately show ?thesis by blast
            next
              case dir: True
              show ?thesis
              proof (cases "page_number pg \<ge> total_pages pg")
                case True
                with body fetch proc dir
                have y: "y = (Inr st2, storeLedger (downloadLog st2) w2)"
                  by (simp add: writeDownloadLog_def)
                have "mainLoop E' d st w = Some y"
                  using fetch proc True y dir
                  by (subst mainLoop.simps) (simp add: writeDownloadLog_def)
                moreover have "E' = E \<and> d = dateFrom \<Longrightarrow> P st w y"
                  using lastPage [of st w pg w1 st2 w2] fetch proc True y dir by simp
                ultimately show ?thesis by blast
              next
                case False
                with body fetch proc dir
                have "f E' d (st2\<lparr>pageNumber := pageNumber st2 + 1\<rparr>)
                        (storeLedger (downloadLog st2) w2) = Some y"
                  by (simp add: writeDownloadLog_def)
                from 1(1) [OF this]
                have ih: "mainLoop E' d (st2\<lparr>pageNumber := pageNumber st2 + 1\<rparr>)
                        (storeLedger (downloadLog st2) w2) = Some y"
                  "E' = E \<and> d = dateFrom \<Longrightarrow>
                     P (st2\<lparr>pageNumber := pageNumber st2 + 1\<rparr>)
                       (storeLedger (downloadLog st2) w2) y"
                  by simp_all
                have "mainLoop E' d st w = Some y"
                  using fetch proc False ih(1) dir
                  by (subst mainLoop.simps) (simp add: writeDownloadLog_def)
                moreover have "E' = E \<and> d = dateFrom \<Longrightarrow> P st w y"
                  using nextPage [of st w pg w1 st2 w2 y] fetch proc False ih dir by simp
                ultimately show ?thesis by blast
              qed
            qed
          qed
        qed
      qed
    qed
  qed
  from this [OF ret] show ?thesis by simp
qed

text \<open>The pages a run of the loop asks for.\<close>

lemma storeLedger_remote: "sameRemote w (storeLedger l w)"
  by (simp add: sameRemote_def)

lemma sameRemote_trans: "sameRemote a b \<Longrightarrow> sameRemote b c \<Longrightarrow> sameRemote a c"
  by (simp add: sameRemote_def)

lemma mainLoop_pages:
  assumes "mainLoop E d st w = Some (Inr st', w')" and "listingAnswers w pn tp"
  shows "\<exists>last. pageNumber st \<le> last \<and>
           pagesRequested (trace w') = pagesRequested (trace w) @ [pageNumber st..last] \<and>
           tp \<le> pn last \<and> (\<forall>p. pageNumber st \<le> p \<and> p < last \<longrightarrow> pn p < tp)"
proof -
  have "listingAnswers w pn tp \<longrightarrow>
        (\<forall>s. fst (Inr st' :: failure + loop_state, w') = Inr s \<longrightarrow>
          (\<exists>last. pageNumber st \<le> last \<and>
             pagesRequested (trace (snd (Inr st' :: failure + loop_state, w')))
               = pagesRequested (trace w) @ [pageNumber st..last] \<and>
             tp \<le> pn last \<and> (\<forall>p. pageNumber st \<le> p \<and> p < last \<longrightarrow> pn p < tp)))"
    using assms(1)
  proof (induction rule: mainLoop_returns_induct)
    case (FetchFailed st w e w1)
    show ?case by simp
  next
    case (PageFailed st w pg w1 e w2)
    show ?case by simp
  next
    case (WriteFailed st w pg w1 st2 w2)
    show ?case by simp
  next
    case (LastPage st w pg w1 st2 w2)
    show ?case
    proof (intro impI allI)
      fix s assume la: "listingAnswers w pn tp"
      from fetchReportPage_listing [OF LastPage(1) la]
      have pg: "page_number pg = pn (pageNumber st)" "total_pages pg = tp"
        "pagesRequested (trace w1) = pagesRequested (trace w) @ [pageNumber st]"
        by auto
      from processReports_effect [OF LastPage(2)]
      have "pagesRequested (trace w2) = pagesRequested (trace w1)" by simp
      with pg LastPage(4)
      have "pageNumber st \<le> pageNumber st \<and>
             pagesRequested (trace (storeLedger (downloadLog st2) w2))
               = pagesRequested (trace w) @ [pageNumber st..pageNumber st] \<and>
             tp \<le> pn (pageNumber st) \<and>
             (\<forall>p. pageNumber st \<le> p \<and> p < pageNumber st \<longrightarrow> pn p < tp)"
        by (simp add: pagesRequested_append)
      then show "\<exists>last. pageNumber st \<le> last \<and>
             pagesRequested (trace (snd (Inr st2 :: failure + loop_state,
                 storeLedger (downloadLog st2) w2)))
               = pagesRequested (trace w) @ [pageNumber st..last] \<and>
             tp \<le> pn last \<and> (\<forall>p. pageNumber st \<le> p \<and> p < last \<longrightarrow> pn p < tp)"
        unfolding snd_conv by blast
    qed
  next
    case (NextPage st w pg w1 st2 w2 y)
    let ?st = "st2\<lparr>pageNumber := pageNumber st2 + 1\<rparr>"
    let ?w = "storeLedger (downloadLog st2) w2"
    show ?case
    proof (intro impI allI)
      fix s assume la: "listingAnswers w pn tp" and y: "fst y = Inr s"
      from fetchReportPage_listing [OF NextPage(1) la]
      have pg: "page_number pg = pn (pageNumber st)" "total_pages pg = tp"
        "pagesRequested (trace w1) = pagesRequested (trace w) @ [pageNumber st]"
        and r1: "sameRemote w w1"
        by auto
      from processReports_effect [OF NextPage(2)]
      have e2: "pagesRequested (trace w2) = pagesRequested (trace w1)" "sameRemote w1 w2"
        "pageNumber st2 = pageNumber (noteTotals st pg)"
        by simp_all
      have pn2: "pageNumber ?st = pageNumber st + 1"
        using e2(3) by (simp add: noteTotals_def)
      have "sameRemote w ?w"
        using r1 e2(2) storeLedger_remote [of w2 "downloadLog st2"]
        by (blast intro: sameRemote_trans)
      with la have "listingAnswers ?w pn tp" by (rule listingAnswers_sameRemote [rotated])
      with NextPage(6) y obtain last where
        l: "pageNumber ?st \<le> last"
          "pagesRequested (trace (snd y)) = pagesRequested (trace ?w) @ [pageNumber ?st..last]"
          "tp \<le> pn last" "\<forall>p. pageNumber ?st \<le> p \<and> p < last \<longrightarrow> pn p < tp"
        by blast
      have lt: "pn (pageNumber st) < tp" using NextPage(4) pg by simp
      have up: "[pageNumber st..last] = pageNumber st # [pageNumber st + 1..last]"
        using l(1) pn2 by (simp add: upto_rec1)
      have a: "pageNumber st \<le> last" using l(1) pn2 by simp
      have b: "pagesRequested (trace (snd y)) = pagesRequested (trace w) @ [pageNumber st..last]"
        using l(2) pn2 up pg(3) e2(1) by (simp add: pagesRequested_append)
      have c: "\<forall>p. pageNumber st \<le> p \<and> p < last \<longrightarrow> pn p < tp"
      proof (intro allI impI)
        fix p assume p: "pageNumber st \<le> p \<and> p < last"
        show "pn p < tp"
        proof (cases "p = pageNumber st")
          case True
          with lt show ?thesis by simp
        next
          case False
          with p pn2 have "pageNumber ?st \<le> p \<and> p < last" by simp
          with l(4) show ?thesis by blast
        qed
      qed
      from a b l(3) c
      show "\<exists>last. pageNumber st \<le> last \<and>
             pagesRequested (trace (snd y)) = pagesRequested (trace w) @ [pageNumber st..last] \<and>
             tp \<le> pn last \<and> (\<forall>p. pageNumber st \<le> p \<and> p < last \<longrightarrow> pn p < tp)"
        by blast
    qed
  qed
  with assms(2) show ?thesis unfolding fst_conv snd_conv by blast
qed


















section \<open>A run in which every request is answered\<close>

text \<open>
  When the remote side answers every request, no call throws: the wrapper returns at its
  first attempt, a report is processed to the end, and the page loop stops at the first
  page that reports \<open>page_number \<ge> total_pages\<close>, provided the ledger file can be
  written.
\<close>

lemma cooperative_sameRemote:
  "sameRemote w w' \<Longrightarrow> cooperative w pn tp \<Longrightarrow> cooperative w' pn tp"
  by (simp add: sameRemote_def cooperative_def listingAnswers_def)

lemma getValidToken_dir: "getValidToken w = (r, w') \<Longrightarrow> dir w' = dir w"
  by (auto simp: getValidToken_def getAccessToken_def performed_def
      split: if_splits prod.splits sum.splits)

lemma tryRequest_dir: "tryRequest ep w = (r, w') \<Longrightarrow> dir w' = dir w"
  by (auto simp: tryRequest_def performed_def split: prod.splits sum.splits
      dest!: getValidToken_dir)

lemma authRequest_dir:
  assumes "authRequest ep w = Some (r, w')"
  shows "dir w' = dir w"
proof -
  have "dir (snd (r, w')) = dir w"
    using assms
  proof (induction rule: authRequest_returns_induct)
    case (Success w r w1)
    from tryRequest_dir [OF Success] show ?case by simp
  next
    case (Expired w d w1 y)
    from tryRequest_dir [OF Expired(1)] Expired(4) show ?case by simp
  next
    case (RateLimit w d w1 y)
    from tryRequest_dir [OF RateLimit(1)] RateLimit(5) show ?case by (simp add: sleep_def)
  next
    case (Failure w d w1)
    from tryRequest_dir [OF Failure(1)] show ?case by simp
  qed
  then show ?thesis by simp
qed

lemma downloadFileStream_dirExists: "downloadFileStream u p w = (r, w') \<Longrightarrow> dirExists w'"
  by (auto simp: downloadFileStream_def Let_def performed_def split: prod.splits sum.splits)

lemma renameSync_dirExists: "renameSync src dst w = (r, w') \<Longrightarrow> dirExists w' = dirExists w"
  by (auto simp: renameSync_def split: option.splits)

lemma processReport_dirExists:
  assumes "processReport E rep l w = Some (res, l', w')" and "dirExists w"
  shows "dirExists w'"
proof -
  from assms(1) obtain r1 w1 where det: "authRequest (ReportItem (report_id rep)) w = Some (r1, w1)"
    by (cases "authRequest (ReportItem (report_id rep)) w")
       (auto simp: processReport_def getReportDetail_def)
  from authRequest_dir [OF det] assms(2) have d1: "dirExists w1" by (simp add: dirExists_def)
  from assms(1) det d1 show ?thesis
    by (auto simp: processReport_def getReportDetail_def Let_def
        split: option.splits prod.splits sum.splits if_splits
        dest: downloadFileStream_dirExists renameSync_dirExists)
qed

lemma processReports_dirExists:
  assumes "processReports E reps st w = Some (res, w')" and "dirExists w"
  shows "dirExists w'"
proof -
  have "dirExists w \<longrightarrow> dirExists (snd (res, w'))"
    using assms(1)
  proof (induction rule: processReports_returns_induct)
    case (Done st w)
    show ?case by simp
  next
    case (Known rep rest st w y)
    from Known(3) show ?case .
  next
    case (Threw rep rest st w e l w1)
    from processReport_dirExists [OF Threw(2)] show ?case by simp
  next
    case (Downloaded rep rest st w l w1 y)
    from processReport_dirExists [OF Downloaded(2)] Downloaded(4) show ?case by blast
  next
    case (NotDownloaded rep rest st w w1 y)
    from processReport_dirExists [OF NotDownloaded(2)] NotDownloaded(5) show ?case by blast
  qed
  with assms(2) show ?thesis by simp
qed

lemma getValidToken_cooperative:
  assumes "cooperative w pn tp"
  shows "\<exists>tok w'. getValidToken w = (Inr tok, w')"
proof -
  from assms obtain ms tok where "token_srv w (calls w) ASSERTION_EXPIRES_IN = (ms, Inr tok)"
    unfolding cooperative_def by blast
  then show ?thesis
    by (simp add: getValidToken_def getAccessToken_def)
qed

lemma tryRequest_cooperative:
  assumes "cooperative w pn tp"
  shows "\<exists>x w'. tryRequest ep w = (Inr x, w')"
proof -
  from getValidToken_cooperative [OF assms] obtain tok w0 where
    g: "getValidToken w = (Inr tok, w0)" by blast
  from getValidToken_frame [OF g] assms have c0: "cooperative w0 pn tp"
    using cooperative_sameRemote by blast
  have "\<exists>ms x. api_srv w0 (calls w0) ep (bearer tok) = (ms, Inr x)"
  proof (cases ep)
    case (ReportsList d sz p)
    from c0 have "listingAnswers w0 pn tp" by (simp add: cooperative_def)
    then obtain ms rs tc where
      "api_srv w0 (calls w0) (ReportsList d sz p) (bearer tok) = (ms, Inr (Listing rs (pn p) tp tc))"
      unfolding listingAnswers_def by blast
    with ReportsList show ?thesis by simp
  next
    case (ReportItem i)
    from c0 obtain ms x where "api_srv w0 (calls w0) (ReportItem i) (bearer tok) = (ms, Inr x)"
      unfolding cooperative_def by blast
    with ReportItem show ?thesis by simp
  qed
  then obtain ms x where "api_srv w0 (calls w0) ep (bearer tok) = (ms, Inr x)" by blast
  with g show ?thesis by (simp add: tryRequest_def)
qed

lemma authRequest_cooperative:
  assumes "cooperative w pn tp"
  shows "\<exists>x w'. authRequest ep w = Some (Inr x, w')"
proof -
  from tryRequest_cooperative [OF assms] obtain x w' where t: "tryRequest ep w = (Inr x, w')"
    by blast
  have "authRequest ep w = Some (Inr x, w')"
    using t by (subst authRequest.simps) simp
  then show ?thesis by blast
qed

lemma fetchReportPage_cooperative:
  assumes "cooperative w pn tp"
  shows "\<exists>pg w1. fetchReportPage d p w = Some (Inr pg, w1) \<and>
           page_number pg = pn p \<and> total_pages pg = tp \<and>
           sameRemote w w1 \<and> dir w1 = dir w"
proof -
  from authRequest_cooperative [OF assms] obtain x w1 where
    a: "authRequest (ReportsList d 50 p) w = Some (Inr x, w1)" by blast
  from assms have la: "listingAnswers w pn tp" by (simp add: cooperative_def)
  from authRequest_listing_pages [OF a la] obtain rs tc where
    x: "x = Listing rs (pn p) tp tc" by auto
  from a x have "fetchReportPage d p w =
      Some (Inr \<lparr>reports = rs, page_number = pn p, total_pages = tp,
                 total_count = (if tc = Some 0 then None else tc)\<rparr>, w1)"
    by (simp add: fetchReportPage_def)
  with authRequest_frame [OF a] authRequest_dir [OF a] show ?thesis by simp
qed

lemma processReport_cooperative:
  assumes "cooperative w pn tp"
  shows "\<exists>b l' w'. processReport E rep l w = Some (Inr b, l', w')"
proof -
  let ?id = "report_id rep"
  from tryRequest_cooperative [OF assms] obtain x w1 where
    t: "tryRequest (ReportItem ?id) w = (Inr x, w1)" by blast
  have a: "getReportDetail ?id w = Some (Inr x, w1)"
    unfolding getReportDetail_def using t by (subst authRequest.simps) simp
  from tryRequest_frame [OF t] assms have c1: "cooperative w1 pn tp"
    using cooperative_sameRemote by blast
  show ?thesis
  proof (cases "detailUrl x")
    case None
    with a have "processReport E rep l w = Some (Inr False, l, w1)"
      by (simp add: processReport_def)
    then show ?thesis by blast
  next
    case (Some u)
    show ?thesis
    proof (cases "skipUnchanged E ?id l w1")
      case True
      with a Some have "processReport E rep l w = Some (Inr False, l, w1)"
        by (simp add: processReport_def)
      then show ?thesis by blast
    next
      case False
      from c1 obtain ms bytes where "file_srv w1 (calls w1) u = (ms, Inr bytes)"
        unfolding cooperative_def by blast
      with a Some False have "\<exists>l' w'. processReport E rep l w = Some (Inr True, l', w')"
        by (simp add: processReport_def Let_def downloadFileStream_def calculateFileHash_def
              renameSync_def performed_def)
      then show ?thesis by blast
    qed
  qed
qed

lemma processReports_cooperative:
  "cooperative w pn tp \<Longrightarrow> \<exists>st' w'. processReports E reps st w = Some (Inr st', w')"
proof (induction reps arbitrary: st w)
  case Nil
  show ?case by simp
next
  case (Cons rep rest)
  show ?case
  proof (cases "report_id rep \<in> downloadedIds st")
    case True
    with Cons.IH [OF Cons.prems, of st] show ?thesis by simp
  next
    case False
    from processReport_cooperative [OF Cons.prems] obtain b l' w1 where
      p: "processReport E rep (downloadLog st) w = Some (Inr b, l', w1)" by blast
    from processReport_effect(1) [OF p] Cons.prems have c1: "cooperative w1 pn tp"
      using cooperative_sameRemote by blast
    show ?thesis
    proof (cases b)
      case True
      from Cons.IH [OF c1, of "st\<lparr>downloadLog := l',
          downloadedIds := insert (report_id rep) (downloadedIds st),
          totalDownloaded := Suc (totalDownloaded st)\<rparr>"] False p True
      show ?thesis by simp
    next
      case nb: False
      from Cons.IH [OF c1, of "st\<lparr>downloadLog := l'\<rparr>"] False p nb
      show ?thesis by simp
    qed
  qed
qed

lemma mainLoop_cooperative:
  assumes "cooperative w pn tp" and "dirExists w" and "pageNumber st \<le> k" and "tp \<le> pn k"
  shows "\<exists>st' w'. mainLoop E d st w = Some (Inr st', w')"
  using assms(1,2,3)
proof (induction "nat (k - pageNumber st)" arbitrary: st w rule: less_induct)
  case less
  from fetchReportPage_cooperative [OF less.prems(1)] obtain pg w1 where
    f: "fetchReportPage d (pageNumber st) w = Some (Inr pg, w1)"
      "page_number pg = pn (pageNumber st)" "total_pages pg = tp"
      "sameRemote w w1" "dir w1 = dir w"
    by blast
  from f(4) less.prems(1) have c1: "cooperative w1 pn tp" by (rule cooperative_sameRemote)
  from f(5) less.prems(2) have d1: "dirExists w1" by (simp add: dirExists_def)
  from processReports_cooperative [OF c1] obtain st2 w2 where
    p: "processReports E (reports pg) (noteTotals st pg) w1 = Some (Inr st2, w2)" by blast
  from processReports_effect [OF p] have e: "sameRemote w1 w2" "pageNumber st2 = pageNumber st"
    by (simp_all add: noteTotals_def)
  from processReports_dirExists [OF p d1] have d2: "dirExists w2" .
  show ?case
  proof (cases "page_number pg \<ge> total_pages pg")
    case True
    have "mainLoop E d st w = Some (Inr st2, storeLedger (downloadLog st2) w2)"
      using f(1) p d2 True by (subst mainLoop.simps) (simp add: writeDownloadLog_def)
    then show ?thesis by blast
  next
    case False
    let ?st = "st2\<lparr>pageNumber := pageNumber st2 + 1\<rparr>"
    let ?w = "storeLedger (downloadLog st2) w2"
    from False f(2,3) assms(4) have "pageNumber st \<noteq> k" by auto
    with less.prems(3) have lt: "pageNumber st < k" by simp
    have c3: "cooperative ?w pn tp"
      using c1 e(1) storeLedger_remote [of w2 "downloadLog st2"]
      by (blast intro: cooperative_sameRemote)
    have d3: "dirExists ?w" using d2 by simp
    have m: "nat (k - pageNumber ?st) < nat (k - pageNumber st)" using lt e(2) by simp
    have b: "pageNumber ?st \<le> k" using lt e(2) by simp
    from less.hyps [OF m c3 d3 b] obtain st' w' where
      r: "mainLoop E d ?st ?w = Some (Inr st', w')" by blast
    have "mainLoop E d st w = mainLoop E d ?st ?w"
      using f(1) p d2 False by (subst mainLoop.simps) (simp add: writeDownloadLog_def)
    with r show ?thesis by simp
  qed
qed

text \<open>The equations that run the model on a given world.\<close>

lemmas run_simps =
  main_def runSweep_def startProcess_def getValidToken_def tokenStale_def locallyExpired_def
  falsyString_def falsyNumber_def getAccessToken_def performed_def readDownloadLog_def
  mainLoop.simps fetchReportPage_def authRequest.simps tryRequest_def processReport_def
  getReportDetail_def detailUrl_def skipUnchanged_def downloadFileStream_def
  calculateFileHash_def renameSync_def moveFile_def writeDownloadLog_def storeLedger_def
  ensureDir_def putFile_def files_def log_file_def dirExists_def TOKEN_REFRESH_MS_def
  finalPathOf_def tempPathOf_def pathJoin_def reportFilename_def bearer_def
  ASSERTION_EXPIRES_IN_def isExpired_def isRateLimit_def waitSeconds_def sleep_def
  timerDelay_def TIMEOUT_MAX_def parseInt_def toNumber_def timesNumber_def
  orEmpty_def Let_def exEnv_def exWorld_def noteTotals_def initialState_def

section \<open>The request wrapper: properties\<close>

text \<open>
  What \<open>retry_match\<close> finds: a result is a non-empty run of digits that stands in the
  string between \<open>retry in \<close> and \<open> second\<close> (in any letter case); and a string in which
  the pattern occurs has a result.
\<close>

lemma retry_match_here_sound:
  assumes "retry_match_here s = Some ds"
  shows "\<exists>r sec post. s = r @ ds @ sec @ post \<and> toLowerCase r = ''retry in '' \<and>
           ds \<noteq> [] \<and> (\<forall>c \<in> set ds. isDigit c) \<and> toLowerCase sec = '' second''"
proof -
  let ?rest = "drop 9 s"
  let ?after = "dropWhile isDigit ?rest"
  from assms have a: "startsWith (toLowerCase s) ''retry in ''"
    and ds: "ds = takeWhile isDigit ?rest" "ds \<noteq> []"
    and b: "startsWith (toLowerCase ?after) '' second''"
    by (auto simp: retry_match_here_def Let_def split: if_splits)
  have "s = take 9 s @ ds @ take 7 ?after @ drop 7 ?after"
    using ds(1) by simp
  moreover have "toLowerCase (take 9 s) = ''retry in ''"
    using a by (simp add: startsWith_def toLowerCase_def take_map eval_nat_numeral)
  moreover have "toLowerCase (take 7 ?after) = '' second''"
    using b by (simp add: startsWith_def toLowerCase_def take_map eval_nat_numeral)
  moreover have "\<forall>c \<in> set ds. isDigit c"
    unfolding ds(1) by (auto dest: set_takeWhileD)
  ultimately show ?thesis using ds(2) by blast
qed

lemma retry_match_sound:
  assumes "retry_match s = Some ds"
  shows "\<exists>pre r sec post. s = pre @ r @ ds @ sec @ post \<and> toLowerCase r = ''retry in '' \<and>
           ds \<noteq> [] \<and> (\<forall>c \<in> set ds. isDigit c) \<and> toLowerCase sec = '' second''"
  using assms
proof (induction s)
  case Nil
  then show ?case by simp
next
  case (Cons c cs)
  show ?case
  proof (cases "retry_match_here (c # cs)")
    case None
    with Cons.prems have "retry_match cs = Some ds" by simp
    from Cons.IH [OF this] obtain pre r sec post where
      "cs = pre @ r @ ds @ sec @ post" "toLowerCase r = ''retry in ''" "ds \<noteq> []"
      "\<forall>c \<in> set ds. isDigit c" "toLowerCase sec = '' second''"
      by blast
    then have "c # cs = (c # pre) @ r @ ds @ sec @ post \<and> toLowerCase r = ''retry in '' \<and>
           ds \<noteq> [] \<and> (\<forall>c \<in> set ds. isDigit c) \<and> toLowerCase sec = '' second''"
      by simp
    then show ?thesis by blast
  next
    case (Some a)
    with Cons.prems have "retry_match_here (c # cs) = Some ds" by simp
    from retry_match_here_sound [OF this] obtain r sec post where
      "c # cs = [] @ r @ ds @ sec @ post \<and> toLowerCase r = ''retry in '' \<and>
           ds \<noteq> [] \<and> (\<forall>c \<in> set ds. isDigit c) \<and> toLowerCase sec = '' second''"
      by auto
    then show ?thesis by blast
  qed
qed

lemma lowerChar_digit: "isDigit c \<Longrightarrow> lowerChar c = c"
  by (auto simp: isDigit_def) (simp_all add: lowerChar_def)

lemma retry_match_here_complete:
  assumes r: "toLowerCase r = ''retry in ''" and ds: "ds \<noteq> []" "\<forall>c \<in> set ds. isDigit c"
    and sec: "toLowerCase sec = '' second''"
  shows "retry_match_here (r @ ds @ sec @ post) = Some ds"
proof -
  have "length (toLowerCase r) = length r" by (simp add: toLowerCase_def)
  then have lr: "length r = 9" unfolding r by simp
  from sec obtain c sec' where s: "sec = c # sec'" "lowerChar c = CHR '' ''"
    by (cases sec) (auto simp: toLowerCase_def)
  have nd: "\<not> isDigit c"
  proof
    assume "isDigit c"
    from lowerChar_digit [OF this] s(2) have "c = CHR '' ''" by simp
    with \<open>isDigit c\<close> show False by (simp add: isDigit_def)
  qed
  have tw: "takeWhile isDigit (ds @ sec @ post) = ds"
    using ds(2) nd s(1) by (simp add: takeWhile_append2)
  have dw: "dropWhile isDigit (ds @ sec @ post) = sec @ post"
    using ds(2) nd s(1) by (simp add: dropWhile_append2)
  have "length (toLowerCase sec) = length sec" by (simp add: toLowerCase_def)
  then have ls: "length sec = 7" unfolding sec by simp
  have p1: "startsWith (toLowerCase (r @ ds @ sec @ post)) ''retry in ''"
    using r lr by (simp add: startsWith_def toLowerCase_def)
  have p2: "startsWith (toLowerCase (sec @ post)) '' second''"
    using sec ls by (simp add: startsWith_def toLowerCase_def)
  show ?thesis
    using p1 p2 tw dw ds(1) lr by (simp add: retry_match_here_def Let_def)
qed

lemma retry_match_complete:
  assumes "toLowerCase r = ''retry in ''" and "ds \<noteq> []" "\<forall>c \<in> set ds. isDigit c"
    and "toLowerCase sec = '' second''"
  shows "retry_match (pre @ r @ ds @ sec @ post) \<noteq> None"
proof (induction pre)
  case Nil
  from assms(1) obtain c r' where "r = c # r'" by (cases r) (auto simp: toLowerCase_def)
  with retry_match_here_complete [OF assms, of post] show ?case by simp
next
  case (Cons a pre)
  then show ?case by (simp split: option.splits)
qed

lemma tryRequest_sleeps: "tryRequest ep w = (r, w1) \<Longrightarrow> sleeps (trace w1) = sleeps (trace w)"
  by (auto simp: tryRequest_def getValidToken_def getAccessToken_def performed_def sleeps_append
      split: prod.splits sum.splits if_splits)

text \<open>
  C4. When an attempt of \<open>authRequest\<close> (the token, then the call) is rejected with
  \<open>error_description\<close> equal to \<open>Access token has expired.\<close>, the wrapper clears the cached
  token and goes round the loop at once: no wait is added. If the token exchange of the
  next attempt then succeeds and the call made with the new token succeeds, \<open>authRequest\<close>
  returns that response and throws nothing; the only time that passed after the rejection
  is the time of those two calls.
\<close>

theorem authRequest_token_expired:
  assumes att: "tryRequest ep w = (Inl (Some body), w1)"
    and expired: "error_description body = Some ''Access token has expired.''"
  shows "authRequest ep w = authRequest ep (w1\<lparr>cachedToken := None\<rparr>) \<and>
         sleeps (trace (w1\<lparr>cachedToken := None\<rparr>)) = sleeps (trace w) \<and>
         (\<forall>ms tok ms' r.
            token_srv w1 (calls w1) ASSERTION_EXPIRES_IN = (ms, Inr tok) \<and>
            api_srv w1 (Suc (calls w1)) ep (bearer tok) = (ms', Inr r) \<longrightarrow>
            (\<exists>w'. authRequest ep w = Some (Inr r, w') \<and> cachedToken w' = tok \<and>
                  sleeps (trace w') = sleeps (trace w) \<and>
                  now w' = now w1 + int ms + int ms'))"
proof -
  have ex: "isExpired (Some body)" using expired by (simp add: isExpired_def)
  have step: "authRequest ep w = authRequest ep (w1\<lparr>cachedToken := None\<rparr>)"
    using att ex by (subst authRequest.simps) simp
  have sl: "sleeps (trace (w1\<lparr>cachedToken := None\<rparr>)) = sleeps (trace w)"
    using tryRequest_sleeps [OF att] by simp
  have again: "\<exists>w'. authRequest ep (w1\<lparr>cachedToken := None\<rparr>) = Some (Inr r, w') \<and>
                  cachedToken w' = tok \<and> sleeps (trace w') = sleeps (trace w) \<and>
                  now w' = now w1 + int ms + int ms'"
    if "token_srv w1 (calls w1) ASSERTION_EXPIRES_IN = (ms, Inr tok)"
      and "api_srv w1 (Suc (calls w1)) ep (bearer tok) = (ms', Inr r)" for ms tok ms' r
  proof -
    have "\<exists>w2. tryRequest ep (w1\<lparr>cachedToken := None\<rparr>) = (Inr r, w2) \<and> cachedToken w2 = tok \<and>
            sleeps (trace w2) = sleeps (trace w1) \<and> now w2 = now w1 + int ms + int ms'"
      using that
      by (simp add: tryRequest_def getValidToken_def getAccessToken_def tokenStale_def
            falsyString_def performed_def sleeps_append)
    then obtain w2 where t2: "tryRequest ep (w1\<lparr>cachedToken := None\<rparr>) = (Inr r, w2)"
      and c2: "cachedToken w2 = tok" "sleeps (trace w2) = sleeps (trace w1)"
         "now w2 = now w1 + int ms + int ms'"
      by blast
    have "authRequest ep (w1\<lparr>cachedToken := None\<rparr>) = Some (Inr r, w2)"
      using t2 by (subst authRequest.simps) simp
    with c2 sl show ?thesis by simp
  qed
  from step sl again show ?thesis by auto
qed

theorem authRequest_token_expired_witness:
  "\<exists>w1 w'. tryRequest (ReportItem ''7'') (exWorldFailing (Some expiredBody))
              = (Inl (Some expiredBody), w1) \<and>
     error_description expiredBody = Some ''Access token has expired.'' \<and>
     authRequest (ReportItem ''7'') (exWorldFailing (Some expiredBody))
       = Some (Inr (Detail (Some ''u7'')), w') \<and>
     sleeps (trace w') = [] \<and> cachedToken w' = Some ''tok''"
proof -
  let ?w = "exWorldFailing (Some expiredBody)"
  have "\<exists>w1. tryRequest (ReportItem ''7'') ?w = (Inl (Some expiredBody), w1)"
    by (simp add: run_simps exWorldFailing_def)
  then obtain w1 where t: "tryRequest (ReportItem ''7'') ?w = (Inl (Some expiredBody), w1)"
    by blast
  have e: "error_description expiredBody = Some ''Access token has expired.''"
    by (simp add: expiredBody_def)
  have c: "calls w1 = 2" "token_srv w1 = token_srv ?w" "api_srv w1 = api_srv ?w"
    using t tryRequest_frame [OF t]
    by (auto simp: run_simps exWorldFailing_def sameRemote_def)
  have s: "token_srv w1 (calls w1) ASSERTION_EXPIRES_IN = (5, Inr (Some ''tok''))"
    "api_srv w1 (Suc (calls w1)) (ReportItem ''7'') (bearer (Some ''tok''))
       = (1, Inr (Detail (Some ''u7'')))"
    using c by (simp_all add: exWorldFailing_def exWorld_def)
  from authRequest_token_expired [OF t e] s obtain w' where
    r: "authRequest (ReportItem ''7'') ?w = Some (Inr (Detail (Some ''u7'')), w')"
      "cachedToken w' = Some ''tok''" "sleeps (trace w') = sleeps (trace ?w)"
    by blast
  have "sleeps (trace ?w) = []"
    by (simp add: exWorldFailing_def exWorld_def)
  with r t e show ?thesis by auto
qed

text \<open>
  C5, as the claim states it, fails, in two ways. A rejection whose body says both
  \<open>error_type = RateLimitError\<close> and \<open>Access token has expired.\<close> indicates rate limiting,
  yet the wrapper takes the expired-token branch, which is tested first, and re-issues the
  request without any wait. And a rejection that says \<open>retry in 2147484 seconds\<close> makes the
  wrapper set a timer of 2147484000 milliseconds, which is more than a timer takes: the
  timer is set for 1 millisecond instead, and the request is re-issued 3 milliseconds
  after the rejection.
\<close>

theorem authRequest_rate_limit_counterexample:
  "isRateLimit (Some bothBody) \<and>
   fst (tryRequest (ReportItem ''7'') (exWorldFailing (Some bothBody))) = Inl (Some bothBody) \<and>
   map_option (\<lambda>(r, w'). (r, sleeps (trace w')))
      (authRequest (ReportItem ''7'') (exWorldFailing (Some bothBody)))
    = Some (Inr (Detail (Some ''u7'')), []) \<and>
   isRateLimit (Some hugeBody) \<and> \<not> isExpired (Some hugeBody) \<and>
   retry_match (orEmpty (error_description hugeBody)) = Some ''2147484'' \<and>
   map_option (\<lambda>(r, w'). (r, now w'))
      (Some (tryRequest (ReportItem ''7'') (exWorldFailing (Some hugeBody))))
    = Some (Inl (Some hugeBody), 1008) \<and>
   map_option (\<lambda>(r, w'). (r, sleeps (trace w'), now w'))
      (authRequest (ReportItem ''7'') (exWorldFailing (Some hugeBody)))
    = Some (Inr (Detail (Some ''u7'')), [1], 1012)"
  by (simp add: run_simps exWorldFailing_def bothBody_def hugeBody_def
        retry_match_here_def startsWith_def toLowerCase_def lowerChar_def isDigit_def
        decimalValue_def digitVal_def)

text \<open>
  C5, amended. When an attempt is rejected with a body that does not indicate token expiry:
  if the body indicates rate limiting, the wrapper sets a timer and, when it has fired,
  goes round the loop with the same request, nothing but the clock having changed. The
  timer is set for the number \<open>N\<close> of seconds that the pattern \<open>retry in N seconds\<close> gives
  in the error description, provided \<open>N\<close> seconds are at most \<open>2147483647\<close> milliseconds
  (for 1 millisecond when \<open>N = 0\<close>), and for exactly 10 seconds when the description has no
  such pattern; the wait is at least that long. If the body does not indicate rate
  limiting either, the rejection is thrown to the caller as it is.
\<close>

theorem authRequest_rate_limited:
  assumes att: "tryRequest ep w = (Inl d, w1)"
    and notExpired: "\<not> isExpired d"
  shows "(isRateLimit d \<longrightarrow>
            (\<exists>body w2. d = Some body \<and>
               authRequest ep w = authRequest ep w2 \<and>
               w2 = w1\<lparr>now := now w2, trace := trace w2\<rparr> \<and>
               (case retry_match (orEmpty (error_description body)) of
                  Some ds \<Rightarrow>
                    decimalValue ds * 1000 \<le> TIMEOUT_MAX \<longrightarrow>
                      trace w2 = trace w1 @ [Slept (max 1 (decimalValue ds * 1000))] \<and>
                      now w1 + int (decimalValue ds) * 1000 \<le> now w2
                | None \<Rightarrow>
                    trace w2 = trace w1 @ [Slept 10000] \<and> now w1 + 10000 \<le> now w2))) \<and>
         (\<not> isRateLimit d \<longrightarrow> authRequest ep w = Some (Inl (AxiosError d), w1))"
proof (cases "isRateLimit d")
  case True
  then obtain body where b: "d = Some body" by (cases d) (simp_all add: isRateLimit_def)
  let ?w2 = "sleep (timesNumber (waitSeconds d) 1000) w1"
  have step: "authRequest ep w = authRequest ep ?w2"
    using att notExpired True by (subst authRequest.simps) simp
  have same: "?w2 = w1\<lparr>now := now ?w2, trace := trace ?w2\<rparr>"
    by (simp add: sleep_def)
  have wait: "case retry_match (orEmpty (error_description body)) of
                  Some ds \<Rightarrow>
                    decimalValue ds * 1000 \<le> TIMEOUT_MAX \<longrightarrow>
                      trace ?w2 = trace w1 @ [Slept (max 1 (decimalValue ds * 1000))] \<and>
                      now w1 + int (decimalValue ds) * 1000 \<le> now ?w2
                | None \<Rightarrow>
                    trace ?w2 = trace w1 @ [Slept 10000] \<and> now w1 + 10000 \<le> now ?w2"
  proof (cases "retry_match (orEmpty (error_description body))")
    case None
    with b show ?thesis
      by (simp add: waitSeconds_def timesNumber_def toNumber_def timerDelay_def
            TIMEOUT_MAX_def sleep_def)
  next
    case (Some ds)
    have "timerDelay (timesNumber (parseInt ds) 1000) = max 1 (decimalValue ds * 1000)"
      if "decimalValue ds * 1000 \<le> TIMEOUT_MAX"
      using that
      by (simp add: parseInt_def timesNumber_def toNumber_def timerDelay_def TIMEOUT_MAX_def)
    moreover have "int (decimalValue ds) * 1000
        \<le> int (max 1 (decimalValue ds * 1000)) + int (timer_lag w1 (calls w1))"
      by simp
    ultimately show ?thesis
      using b Some by (simp add: waitSeconds_def sleep_def)
  qed
  from True b step same wait show ?thesis by blast
next
  case False
  have "authRequest ep w = Some (Inl (AxiosError d), w1)"
    using att notExpired False by (subst authRequest.simps) simp
  with False show ?thesis by simp
qed

theorem authRequest_rate_limited_witness:
  "\<exists>w1 w2 w'. tryRequest (ReportItem ''7'') (exWorldFailing (Some limitedBody))
              = (Inl (Some limitedBody), w1) \<and>
     \<not> isExpired (Some limitedBody) \<and> isRateLimit (Some limitedBody) \<and>
     retry_match (orEmpty (error_description limitedBody)) = Some ''5'' \<and>
     decimalValue ''5'' * 1000 \<le> TIMEOUT_MAX \<and>
     authRequest (ReportItem ''7'') (exWorldFailing (Some limitedBody))
       = authRequest (ReportItem ''7'') w2 \<and>
     trace w2 = trace w1 @ [Slept 5000] \<and> now w1 + 5000 \<le> now w2 \<and>
     authRequest (ReportItem ''7'') (exWorldFailing (Some limitedBody))
       = Some (Inr (Detail (Some ''u7'')), w') \<and>
     sleeps (trace w') = [5000]"
proof -
  let ?w = "exWorldFailing (Some limitedBody)"
  have "\<exists>w1. tryRequest (ReportItem ''7'') ?w = (Inl (Some limitedBody), w1)"
    by (simp add: run_simps exWorldFailing_def)
  then obtain w1 where t: "tryRequest (ReportItem ''7'') ?w = (Inl (Some limitedBody), w1)"
    by blast
  have ne: "\<not> isExpired (Some limitedBody)"
    by (simp add: isExpired_def limitedBody_def)
  have rl: "isRateLimit (Some limitedBody)"
    by (simp add: isRateLimit_def limitedBody_def)
  have m: "retry_match (orEmpty (error_description limitedBody)) = Some ''5''"
    by (simp add: limitedBody_def orEmpty_def retry_match_here_def startsWith_def
          toLowerCase_def lowerChar_def isDigit_def)
  have p: "decimalValue ''5'' = 5"
    by (simp add: decimalValue_def digitVal_def)
  from authRequest_rate_limited [OF t ne] rl obtain body w2 where
    b: "Some limitedBody = Some body"
    and step: "authRequest (ReportItem ''7'') ?w = authRequest (ReportItem ''7'') w2"
    and wait: "case retry_match (orEmpty (error_description body)) of
                  Some ds \<Rightarrow>
                    decimalValue ds * 1000 \<le> TIMEOUT_MAX \<longrightarrow>
                      trace w2 = trace w1 @ [Slept (max 1 (decimalValue ds * 1000))] \<and>
                      now w1 + int (decimalValue ds) * 1000 \<le> now w2
                | None \<Rightarrow>
                    trace w2 = trace w1 @ [Slept 10000] \<and> now w1 + 10000 \<le> now w2"
    by blast
  from b have "body = limitedBody" by simp
  with wait m p have w2: "trace w2 = trace w1 @ [Slept 5000]" "now w1 + 5000 \<le> now w2"
    by (simp_all add: TIMEOUT_MAX_def)
  have le: "decimalValue ''5'' * 1000 \<le> TIMEOUT_MAX"
    using p by (simp add: TIMEOUT_MAX_def)
  have "\<exists>w'. authRequest (ReportItem ''7'') ?w = Some (Inr (Detail (Some ''u7'')), w') \<and>
          sleeps (trace w') = [5000]"
    using m p by (simp add: run_simps exWorldFailing_def limitedBody_def)
  with t ne rl m le step w2 show ?thesis by blast
qed

section \<open>Report processing: properties\<close>

text \<open>
  C10. A call of \<open>processReport\<close> that returns or throws leaves every ledger entry under
  another id as it was. The ledger differs afterwards only when the call returns \<open>true\<close>,
  and then the entry under the report's id holds the file name and the digest of the file
  that now stands at the final path.
\<close>

theorem processReport_ledger_frame:
  assumes "processReport E rep l w = Some (res, l', w')"
  shows "(\<forall>k. k \<noteq> report_id rep \<longrightarrow> l' k = l k) \<and>
         (l' \<noteq> l \<longrightarrow> res = Inr True) \<and>
         (res = Inr True \<longrightarrow>
            (\<exists>content. files w' (finalPathOf E (report_id rep)) = Some content \<and>
               l' = l(report_id rep \<mapsto>
                   \<lparr>filename = reportFilename (report_id rep), hash = sha256_hex E content,
                    downloaded_at = now w'\<rparr>)))"
  using assms
  by (auto simp: processReport_def Let_def downloadFileStream_def calculateFileHash_def
        renameSync_def performed_def
      split: option.splits prod.splits sum.splits if_splits)

theorem processReport_ledger_frame_witness:
  "\<exists>l' w'. processReport exEnv \<lparr>report_id = ''7''\<rparr> Map.empty exWorld = Some (Inr True, l', w') \<and>
     l' ''8'' = None \<and>
     files w' (finalPathOf exEnv ''7'') = Some ''bytes'' \<and>
     l' = [''7'' \<mapsto> \<lparr>filename = ''report_7.pdf'', hash = ''bytes'', downloaded_at = now w'\<rparr>]"
proof -
  have "\<exists>l' w'. processReport exEnv \<lparr>report_id = ''7''\<rparr> Map.empty exWorld = Some (Inr True, l', w')"
    by (simp add: run_simps)
  then obtain l' w' where
    run: "processReport exEnv \<lparr>report_id = ''7''\<rparr> Map.empty exWorld = Some (Inr True, l', w')"
    by blast
  have f: "files w' (finalPathOf exEnv ''7'') = Some ''bytes''"
    using run by (simp add: run_simps) auto
  from processReport_ledger_frame [OF run] f run show ?thesis
    by (auto simp: exEnv_def reportFilename_def)
qed

text \<open>
  C8. When the detail of a report carries no \<open>data.url\<close> (absent or empty), \<open>processReport\<close>
  returns \<open>false\<close> with the ledger as it was; no artifact file, nor the ledger file, is
  touched; and the loop over the page goes on with the records that follow.
\<close>

theorem processReport_without_url:
  assumes "getReportDetail (report_id rep) w = Some (Inr detail, w1)"
    and "detailUrl detail = None"
  shows "processReport E rep l w = Some (Inr False, l, w1) \<and>
         sameDisk w w1 \<and>
         (report_id rep \<notin> downloadedIds st \<longrightarrow>
            processReports E (rep # rest) st w = processReports E rest st w1)"
proof -
  have p: "processReport E rep l w = Some (Inr False, l, w1)" for l
    using assms by (simp add: processReport_def)
  have "sameDisk w w1"
    using assms(1) by (auto simp: getReportDetail_def dest: authRequest_frame)
  with p show ?thesis by simp
qed

theorem processReport_without_url_witness:
  "\<exists>w1. getReportDetail ''8'' exWorld = Some (Inr (Detail None), w1) \<and>
     detailUrl (Detail None) = None \<and>
     processReport exEnv \<lparr>report_id = ''8''\<rparr> Map.empty exWorld = Some (Inr False, Map.empty, w1) \<and>
     files w1 = Map.empty \<and> log_file w1 = Absent \<and> filter fileEvent (trace w1) = [] \<and>
     processReports exEnv [\<lparr>report_id = ''8''\<rparr>]
        \<lparr>pageNumber = 1, totalPages = None, totalReports = None, totalDownloaded = 0,
         downloadLog = Map.empty, downloadedIds = {}\<rparr> exWorld =
       Some (Inr \<lparr>pageNumber = 1, totalPages = None, totalReports = None, totalDownloaded = 0,
                  downloadLog = Map.empty, downloadedIds = {}\<rparr>, w1)"
proof -
  have "\<exists>w1. getReportDetail ''8'' exWorld = Some (Inr (Detail None), w1)"
    by (simp add: run_simps)
  then obtain w1 where d: "getReportDetail ''8'' exWorld = Some (Inr (Detail None), w1)"
    by blast
  have u: "detailUrl (Detail None) = None"
    by (simp add: detailUrl_def falsyString_def)
  have d': "getReportDetail (report_id \<lparr>report_id = ''8''\<rparr>) exWorld = Some (Inr (Detail None), w1)"
    using d by simp
  from processReport_without_url [OF d' u, of exEnv Map.empty
      "\<lparr>pageNumber = 1, totalPages = None, totalReports = None, totalDownloaded = 0,
         downloadLog = Map.empty, downloadedIds = {}\<rparr>" "[]"] d u
  show ?thesis
    by (auto simp: sameDisk_def exWorld_def files_def log_file_def)
qed

text \<open>
  C2, as the claim states it, fails: for report 8 of the example, whose detail has no
  \<open>data.url\<close>, the processor returns "not downloaded" although the id has no ledger entry
  and no file stands at the final path.
\<close>

theorem processReport_skip_counterexample:
  "map_option fst (processReport exEnv \<lparr>report_id = ''8''\<rparr> Map.empty exWorld) = Some (Inr False) \<and>
   (Map.empty :: ledger) ''8'' = None \<and>
   files exWorld (finalPathOf exEnv ''8'') = None"
  by (simp add: run_simps)

text \<open>
  C2, amended. For a report whose detail was fetched and carries a \<open>data.url\<close>:
  \<open>processReport\<close> returns \<open>false\<close> if and only if the id has a ledger entry, a file stands
  at the final path and its digest equals the stored one; it then leaves the ledger and
  the disk as they were. Otherwise it requests the artifact: when the transfer delivers
  the bytes, they end up at the final path, the entry under the id records their digest
  and the call returns \<open>true\<close>; when the transfer is rejected, the rejection is thrown and
  the ledger is as it was.
\<close>

theorem processReport_with_url:
  assumes det: "getReportDetail (report_id rep) w = Some (Inr detail, w1)"
    and url: "detailUrl detail = Some u"
  shows "((\<exists>l' w'. processReport E rep l w = Some (Inr False, l', w')) \<longleftrightarrow>
            (\<exists>e c. l (report_id rep) = Some e \<and>
                   files w (finalPathOf E (report_id rep)) = Some c \<and>
                   hash e = sha256_hex E c)) \<and>
         (\<forall>l' w'. processReport E rep l w = Some (Inr False, l', w') \<longrightarrow>
            l' = l \<and> sameDisk w w') \<and>
         ((\<nexists>e c. l (report_id rep) = Some e \<and>
                   files w (finalPathOf E (report_id rep)) = Some c \<and>
                   hash e = sha256_hex E c) \<longrightarrow>
            (\<forall>ms bytes. file_srv w1 (calls w1) u = (ms, Inr bytes) \<longrightarrow>
               (\<exists>w'. processReport E rep l w =
                   Some (Inr True,
                         l(report_id rep \<mapsto>
                           \<lparr>filename = reportFilename (report_id rep),
                            hash = sha256_hex E bytes, downloaded_at = now w'\<rparr>),
                         w') \<and>
                  files w' (finalPathOf E (report_id rep)) = Some bytes)) \<and>
            (\<forall>ms d. file_srv w1 (calls w1) u = (ms, Inl d) \<longrightarrow>
               (\<exists>w'. processReport E rep l w = Some (Inl (AxiosError d), l, w'))))"
proof -
  have fr: "sameDisk w w1"
    using det by (auto simp: getReportDetail_def dest: authRequest_frame)
  then have files: "files w1 = files w" by (simp add: sameDisk_def)
  have skip: "skipUnchanged E (report_id rep) l w1 \<longleftrightarrow>
      (\<exists>e c. l (report_id rep) = Some e \<and> files w (finalPathOf E (report_id rep)) = Some c \<and>
             hash e = sha256_hex E c)"
    by (auto simp: skipUnchanged_def files split: option.splits)
  show ?thesis
  proof (cases "skipUnchanged E (report_id rep) l w1")
    case True
    then have "processReport E rep l w = Some (Inr False, l, w1)"
      using det url by (simp add: processReport_def)
    with True skip fr show ?thesis by auto
  next
    case False
    obtain ms out where srv: "file_srv w1 (calls w1) u = (ms, out)"
      by (cases "file_srv w1 (calls w1) u")
    show ?thesis
    proof (cases out)
      case (Inl d)
      with False srv det url have "\<exists>w'. processReport E rep l w = Some (Inl (AxiosError d), l, w')"
        by (simp add: processReport_def Let_def downloadFileStream_def)
      with False skip srv Inl show ?thesis by auto
    next
      case (Inr bytes)
      with False srv det url
      have "\<exists>w'. processReport E rep l w =
                   Some (Inr True,
                         l(report_id rep \<mapsto>
                           \<lparr>filename = reportFilename (report_id rep),
                            hash = sha256_hex E bytes, downloaded_at = now w'\<rparr>),
                         w') \<and>
                  files w' (finalPathOf E (report_id rep)) = Some bytes"
        by (simp add: processReport_def Let_def downloadFileStream_def calculateFileHash_def
              renameSync_def performed_def)
      with False skip srv Inr show ?thesis by auto
    qed
  qed
qed

theorem processReport_with_url_witness:
  "\<exists>w1 w'. getReportDetail ''7'' exWorld = Some (Inr (Detail (Some ''u7'')), w1) \<and>
     detailUrl (Detail (Some ''u7'')) = Some ''u7'' \<and>
     file_srv w1 (calls w1) ''u7'' = (2, Inr ''bytes'') \<and>
     processReport exEnv \<lparr>report_id = ''7''\<rparr> Map.empty exWorld =
       Some (Inr True,
             [''7'' \<mapsto> \<lparr>filename = ''report_7.pdf'', hash = ''bytes'', downloaded_at = now w'\<rparr>],
             w') \<and>
     files w' (finalPathOf exEnv ''7'') = Some ''bytes''"
proof -
  have "\<exists>w1. getReportDetail ''7'' exWorld = Some (Inr (Detail (Some ''u7'')), w1)"
    by (simp add: run_simps)
  then obtain w1 where d: "getReportDetail ''7'' exWorld = Some (Inr (Detail (Some ''u7'')), w1)"
    by blast
  have u: "detailUrl (Detail (Some ''u7'')) = Some ''u7''"
    by (simp add: detailUrl_def falsyString_def)
  have "sameRemote exWorld w1"
    using d by (auto simp: getReportDetail_def dest: authRequest_frame)
  then have srv: "file_srv w1 (calls w1) ''u7'' = (2, Inr ''bytes'')"
    by (simp add: sameRemote_def exWorld_def)
  have d': "getReportDetail (report_id \<lparr>report_id = ''7''\<rparr>) exWorld
              = Some (Inr (Detail (Some ''u7'')), w1)"
    using d by simp
  from processReport_with_url [OF d' u, of exEnv Map.empty] srv d u show ?thesis
    by (auto simp: exEnv_def exWorld_def reportFilename_def)
qed

section \<open>The sweep: properties\<close>

text \<open>
  C3, as the claim states it, fails, in two ways. In both examples the listing reports
  \<open>total_pages = 3\<close> on every page. When the listing numbers its pages from 0 (its
  \<open>page_number\<close> is one less than the page asked for), the run finishes after four
  listing requests, for the pages 1, 2, 3, 4. When every detail request is rejected, the
  run stops with that rejection in the first page, after one listing request.
\<close>

theorem pagination_walk_counterexample:
  "listingAnswers exWorldZeroBased (\<lambda>p. p - 1) 3 \<and>
   map_option (\<lambda>(out, w'). (out, pagesRequested (trace w')))
      (main exEnv ''2024-01-01'' exWorldZeroBased) = Some (Finished 1, [1, 2, 3, 4]) \<and>
   listingAnswers exWorldRejecting (\<lambda>p. p) 3 \<and>
   map_option (\<lambda>(out, w'). (out, pagesRequested (trace w')))
      (main exEnv ''2024-01-01'' exWorldRejecting) = Some (Failed (AxiosError None), [1])"
  by (simp add: run_simps listingAnswers_def exWorldZeroBased_def exWorldRejecting_def)

text \<open>
  C3, amended. Suppose the listing endpoint answers every request with a listing whose
  \<open>total_pages\<close> is the same fixed value. If every request of the run is answered (the
  token exchange, the detail and the artifact requests as well), the download directory
  exists, the ledger file is not malformed, and some page from 1 on has
  \<open>page_number \<ge> total_pages\<close>, then the run finishes. And the listing requests of a run
  that finishes are for the pages 1, 2, ... up to the first page whose answer has
  \<open>page_number \<ge> total_pages\<close>, one request each, in this order. When the endpoint
  answers with the page number it was asked for, the last page is \<open>total_pages\<close> (or 1
  when that is smaller); with \<open>total_pages = 3\<close> the requests are for pages 1, 2, 3.
\<close>

theorem pagination_walk:
  assumes "listingAnswers w pn tp"
  shows "(cooperative w pn tp \<and> dirExists w \<and> log_file w \<noteq> Malformed \<and>
            (\<exists>k. 1 \<le> k \<and> tp \<le> pn k) \<longrightarrow>
            (\<exists>n w'. main E dateFrom w = Some (Finished n, w'))) \<and>
         (\<forall>n w'. main E dateFrom w = Some (Finished n, w') \<longrightarrow>
            (\<exists>last. 1 \<le> last \<and>
               pagesRequested (trace w') = pagesRequested (trace w) @ [1..last] \<and>
               tp \<le> pn last \<and> (\<forall>p. 1 \<le> p \<and> p < last \<longrightarrow> pn p < tp) \<and>
               ((\<forall>p. pn p = p) \<longrightarrow> last = max 1 tp) \<and>
               ((\<forall>p. pn p = p) \<and> tp = 3 \<longrightarrow>
                  pagesRequested (trace w') = pagesRequested (trace w) @ [1, 2, 3])))"
proof (intro conjI impI allI)
  assume h: "cooperative w pn tp \<and> dirExists w \<and> log_file w \<noteq> Malformed \<and>
            (\<exists>k. 1 \<le> k \<and> tp \<le> pn k)"
  then obtain k where k: "1 \<le> k" "tp \<le> pn k" by blast
  from h getValidToken_cooperative obtain tok w0 where
    tok: "getValidToken w = (Inr tok, w0)" by blast
  from getValidToken_frame [OF tok] h have c0: "cooperative w0 pn tp"
    using cooperative_sameRemote by blast
  from getValidToken_dir [OF tok] h have d0: "dirExists w0" by (simp add: dirExists_def)
  from getValidToken_frame [OF tok] h have "log_file w0 \<noteq> Malformed"
    by (simp add: sameDisk_def)
  then obtain l where rd: "readDownloadLog w0 = Inr l"
    by (cases "log_file w0") (simp_all add: readDownloadLog_def)
  have "pageNumber (initialState l) \<le> k" using k(1) by (simp add: initialState_def)
  from mainLoop_cooperative [OF c0 d0 this k(2)] obtain st' w' where
    "mainLoop E dateFrom (initialState l) w0 = Some (Inr st', w')" by blast
  with tok rd have "main E dateFrom w = Some (Finished (totalDownloaded st'), w')"
    by (simp add: main_def)
  then show "\<exists>n w'. main E dateFrom w = Some (Finished n, w')" by blast
next
  fix n w'
  assume fin: "main E dateFrom w = Some (Finished n, w')"
  obtain r0 w0 where tok: "getValidToken w = (r0, w0)" by (cases "getValidToken w")
  from fin tok obtain l st where
    rd: "readDownloadLog w0 = Inr l"
    and ml: "mainLoop E dateFrom (initialState l) w0 = Some (Inr st, w')"
    by (auto simp: main_def split: sum.splits option.splits prod.splits)
  from getValidToken_frame [OF tok] assms have la: "listingAnswers w0 pn tp"
    using listingAnswers_sameRemote by blast
  from mainLoop_pages [OF ml la] getValidToken_pages [OF tok]
  have "\<exists>last. 1 \<le> last \<and>
           pagesRequested (trace w') = pagesRequested (trace w) @ [1..last] \<and>
           tp \<le> pn last \<and> (\<forall>p. 1 \<le> p \<and> p < last \<longrightarrow> pn p < tp)"
    by (simp add: initialState_def)
  then obtain last where
    l: "1 \<le> last" "pagesRequested (trace w') = pagesRequested (trace w) @ [1..last]"
      "tp \<le> pn last" "\<forall>p. 1 \<le> p \<and> p < last \<longrightarrow> pn p < tp"
    by blast
  have echo: "last = max 1 tp" if e: "\<forall>p. pn p = p"
  proof (cases "last = 1")
    case True
    with l(3) e show ?thesis by simp
  next
    case False
    with l(1) have "1 \<le> last - 1 \<and> last - 1 < last" by simp
    with l(4) e have "last - 1 < tp" by metis
    moreover from l(3) e have "tp \<le> last" by simp
    ultimately show ?thesis using l(1) False by arith
  qed
  have three: "[1..3::int] = [1, 2, 3]"
    by (simp add: upto_rec1)
  from l echo three
  show "\<exists>last. 1 \<le> last \<and>
               pagesRequested (trace w') = pagesRequested (trace w) @ [1..last] \<and>
               tp \<le> pn last \<and> (\<forall>p. 1 \<le> p \<and> p < last \<longrightarrow> pn p < tp) \<and>
               ((\<forall>p. pn p = p) \<longrightarrow> last = max 1 tp) \<and>
               ((\<forall>p. pn p = p) \<and> tp = 3 \<longrightarrow>
                  pagesRequested (trace w') = pagesRequested (trace w) @ [1, 2, 3])"
    by (intro exI [of _ last]) auto
qed

theorem pagination_walk_witness:
  "listingAnswers exWorld (\<lambda>p. p) 3 \<and> cooperative exWorld (\<lambda>p. p) 3 \<and>
   dirExists exWorld \<and> log_file exWorld \<noteq> Malformed \<and> (\<exists>k. 1 \<le> k \<and> (3::int) \<le> k) \<and>
   (\<exists>n w'. main exEnv ''2024-01-01'' exWorld = Some (Finished n, w') \<and>
      pagesRequested (trace w') = [1, 2, 3])"
proof -
  have la: "listingAnswers exWorld (\<lambda>p. p) 3"
    by (simp add: listingAnswers_def exWorld_def)
  have co: "cooperative exWorld (\<lambda>p. p) 3"
    by (simp add: cooperative_def listingAnswers_def exWorld_def split: endpoint.splits)
  have di: "dirExists exWorld" "log_file exWorld \<noteq> Malformed"
    by (simp_all add: dirExists_def log_file_def exWorld_def)
  have k: "\<exists>k. 1 \<le> k \<and> (3::int) \<le> k"
    by (intro exI [of _ 3]) simp
  note walk = pagination_walk [OF la, of exEnv "''2024-01-01''"]
  from walk co di k obtain n w' where
    run: "main exEnv ''2024-01-01'' exWorld = Some (Finished n, w')"
    by blast
  have "pagesRequested (trace exWorld) = []"
    by (simp add: exWorld_def)
  with walk run have "pagesRequested (trace w') = [1, 2, 3]"
    by auto
  with la co di k run show ?thesis by blast
qed

text \<open>
  C9 describes what the program is meant to do, and the program does it as long as the
  ledger file can be written. \<open>writeDownloadLog\<close> does not create the download directory
  (\<open>downloadFileStream\<close> does, before it opens the temporary file), so when the directory
  does not exist and no report of the first page has an artifact, the write after the
  first page throws: nothing is written to durable storage and the run stops there,
  although every request was answered. In the same surroundings with an artifact on the
  first page, the download creates the directory and the ledger is written after each
  page.
\<close>

theorem ledger_write_fails_without_directory:
  "\<not> dirExists exWorldFresh \<and> cooperative exWorldFresh (\<lambda>p. p) 3 \<and>
   map_option (\<lambda>(out, w'). (out, log_file w', dirExists w', pagesRequested (trace w'),
                              LogWritten \<in> set (trace w')))
      (runSweep exEnv ''2024-01-01'' exWorldFresh)
     = Some (Failed FsError, Absent, False, [1], False) \<and>
   map_option (\<lambda>(out, w'). (out, dirExists w', pagesRequested (trace w'),
                              length (filter (\<lambda>e. e = LogWritten) (trace w'))))
      (runSweep exEnv ''2024-01-01'' (exWorld\<lparr>dir := None\<rparr>))
     = Some (Finished 1, True, [1, 2, 3], 3)"
  by (simp add: run_simps cooperative_def listingAnswers_def exWorldFresh_def
      split: endpoint.splits)

text \<open>
  C1 describes what the report processor alone does, but the sweep does not get there. In
  the example the ledger file has an entry for report 7 and no file stands at the final
  path. \<open>processReport\<close>, called on report 7 with that ledger, downloads the artifact again.
  The sweep never calls it: the loop over the page skips every id that is a key of the
  ledger, so the sweep finishes with no download, never requests the artifact, and the
  final path is still empty afterwards.
\<close>

theorem sweep_skips_deleted_file:
  "readDownloadLog exWorldDeleted = Inr exLedger \<and>
   map_option hash (exLedger ''7'') = Some ''bytes'' \<and>
   files exWorldDeleted (finalPathOf exEnv ''7'') = None \<and>
   map_option (\<lambda>(r, l, w'). (r, files w' (finalPathOf exEnv ''7''),
                               Sent (FileGet ''u7'') \<in> set (trace w')))
      (processReport exEnv \<lparr>report_id = ''7''\<rparr> exLedger exWorldDeleted)
     = Some (Inr True, Some ''bytes'', True) \<and>
   map_option (\<lambda>(out, w'). (out, files w' (finalPathOf exEnv ''7''),
                              Sent (FileGet ''u7'') \<in> set (trace w')))
      (runSweep exEnv ''2024-01-01'' exWorldDeleted) = Some (Finished 0, None, False)"
  by (simp add: run_simps exWorldDeleted_def exLedger_def)



end
